theory Spec2Isabelle
  imports Complex_Main
begin

section \<open>JavaScript values used by the server\<close>

text \<open>
  A JavaScript number is a finite value, NaN or an infinity.  Finite values are modelled
  as rationals (every finite double is one); \<open>Math.max\<close>, \<open>Math.min\<close>,
  \<open>Math.abs\<close>, \<open>Math.floor\<close> and \<open>Math.round\<close> are exact on them, while
  \<open>+\<close>, \<open>-\<close>, \<open>*\<close> and \<open>/\<close> round their result (see below).  A payload field that is
  passed through \<open>Number(n)\<close> is modelled by the number that the coercion yields.
\<close>

datatype jsnum = Fin rat | NaN | PosInf | NegInf

subsection \<open>Arithmetic on doubles\<close>

text \<open>
  A finite JavaScript number is an IEEE 754 binary64 value with 53 significant bits: the
  doubles \<open>x\<close> with \<open>2^e \<le> |x| < 2^(e+1)\<close> are the multiples of \<open>2^(e-52)\<close>, and
  below \<open>2^(-1022)\<close> (the subnormal numbers) they are the multiples of \<open>2^(-1074)\<close>.
  The operators \<open>+\<close>, \<open>-\<close>, \<open>*\<close> and \<open>/\<close> return the exact result rounded to the
  nearest double, a tie going to the neighbour whose last significant bit is 0.

  \<open>bits n\<close> is the number of binary digits of \<open>n\<close>; \<open>ilog2 x\<close> is, for positive
  \<open>x\<close>, the exponent \<open>e\<close> with \<open>2^e \<le> x < 2^(e+1)\<close>; \<open>ulpExp x\<close> is the exponent of
  the spacing of the doubles at \<open>x\<close>; \<open>roundEven\<close> rounds to the nearest integer, a tie
  to the even one; \<open>fl x\<close> is the double nearest to \<open>x\<close>.  A result of magnitude
  \<open>2^1024\<close> or more would be an infinity; the numbers of this server (guesses in
  [0, 100], targets from 0 to 100, sums of guesses, points) stay far below.
\<close>

fun bits :: "nat \<Rightarrow> nat" where
  "bits n = (if n = 0 then 0 else Suc (bits (n div 2)))"

definition ilog2 :: "rat \<Rightarrow> int" where
  "ilog2 x =
     (if 1 \<le> x then int (bits (nat \<lfloor>x\<rfloor>)) - 1
      else - int (bits (nat (\<lceil>1 / x\<rceil> - 1))))"

definition roundEven :: "rat \<Rightarrow> int" where
  "roundEven y =
     (let f = \<lfloor>y\<rfloor>; d = y - of_int f
      in if d < 1 / 2 then f
         else if 1 / 2 < d then f + 1
         else if even f then f else f + 1)"

definition ulpExp :: "rat \<Rightarrow> int" where
  "ulpExp x = max (ilog2 \<bar>x\<bar> - 52) (- 1074)"

definition fl :: "rat \<Rightarrow> rat" where
  "fl x = (if x = 0 then 0
           else of_int (roundEven (x / 2 powi ulpExp x)) * 2 powi ulpExp x)"

text \<open>\<open>a + b\<close>, \<open>a - b\<close>, \<open>a * b\<close> and \<open>a / b\<close> on doubles (where the server
  divides, the divisor is a positive count).\<close>

definition dadd :: "rat \<Rightarrow> rat \<Rightarrow> rat" where
  "dadd a b = fl (a + b)"

definition dsub :: "rat \<Rightarrow> rat \<Rightarrow> rat" where
  "dsub a b = fl (a - b)"

definition dmul :: "rat \<Rightarrow> rat \<Rightarrow> rat" where
  "dmul a b = fl (a * b)"

definition ddiv :: "rat \<Rightarrow> rat \<Rightarrow> rat" where
  "ddiv a b = fl (a / b)"

subsection \<open>Helpers of the server\<close>

text \<open>\<open>Math.round\<close> rounds half up: it is \<open>floor (x + 1/2)\<close>, without rounding error.\<close>

definition Math_round :: "rat \<Rightarrow> int" where
  "Math_round x = \<lfloor>x + 1 / 2\<rfloor>"

text \<open>
  \<^verbatim>\<open>
  function clamp01_100(n) {
    const v = Number(n);
    if (!Number.isFinite(v)) return 50;
    return Math.max(0, Math.min(100, v));
  }
  \<close>
\<close>

fun clamp01_100 :: "jsnum \<Rightarrow> rat" where
  "clamp01_100 (Fin v) = max 0 (min 100 v)"
| "clamp01_100 _ = 50"

text \<open>
  \<^verbatim>\<open>
  function clampInt(n, lo, hi, fallback) {
    const v = Number(n);
    if (!Number.isFinite(v)) return fallback;
    const i = Math.floor(v);
    return Math.max(lo, Math.min(hi, i));
  }
  \<close>
\<close>

fun clampInt :: "jsnum \<Rightarrow> int \<Rightarrow> int \<Rightarrow> int \<Rightarrow> int" where
  "clampInt (Fin v) lo hi fallback = max lo (min hi \<lfloor>v\<rfloor>)"
| "clampInt _ lo hi fallback = fallback"

text \<open>Points by distance (classic tiers).\<close>

definition scoreFromDistance :: "rat \<Rightarrow> int" where
  "scoreFromDistance d =
     (if d \<le> 10 then 4
      else if d \<le> 17 then 3
      else if d \<le> 24 then 2
      else if d \<le> 34 then 1
      else 0)"

section \<open>Strings and the prompt parser\<close>

text \<open>
  A JavaScript string is a sequence of UTF-16 code units; \<open>length\<close>, \<open>slice\<close>,
  \<open>split\<close> and \<open>includes\<close> count and compare code units, so the text whose
  characters the server inspects is a list of code units.  \<open>js\<close> embeds an ASCII
  literal.
\<close>

type_synonym jsstring = "nat list"

definition js :: "string \<Rightarrow> jsstring" where
  "js s = map of_char s"

definition LF :: nat where "LF = 10"
definition CR :: nat where "CR = 13"

text \<open>The delimiters \<open>|\<close>, \<open>,\<close>, \<open>->\<close> and the em dash (U+2014).\<close>

definition PIPE :: jsstring where "PIPE = [124]"
definition COMMA :: jsstring where "COMMA = [44]"
definition ARROW :: jsstring where "ARROW = [45, 62]"
definition EMDASH :: jsstring where "EMDASH = [8212]"

text \<open>
  \<open>String.prototype.trim\<close> strips the code units of WhiteSpace and LineTerminator:
  TAB, LF, VT, FF, CR, SP, NBSP, U+1680, U+2000..U+200A, U+2028, U+2029, U+202F, U+205F,
  U+3000 and U+FEFF.
\<close>

definition isWhiteSpace :: "nat \<Rightarrow> bool" where
  "isWhiteSpace c =
     (c = 9 \<or> c = 10 \<or> c = 11 \<or> c = 12 \<or> c = 13 \<or> c = 32 \<or> c = 160 \<or> c = 5760
      \<or> (8192 \<le> c \<and> c \<le> 8202) \<or> c = 8232 \<or> c = 8233 \<or> c = 8239 \<or> c = 8287
      \<or> c = 12288 \<or> c = 65279)"

definition trim :: "jsstring \<Rightarrow> jsstring" where
  "trim s = rev (dropWhile isWhiteSpace (rev (dropWhile isWhiteSpace s)))"

text \<open>Put a code unit in front of the first piece of a split.\<close>

fun consHead :: "nat \<Rightarrow> jsstring list \<Rightarrow> jsstring list" where
  "consHead c [] = [[c]]"
| "consHead c (l # ls) = (c # l) # ls"

text \<open>\<open>text.split(/\r?\n/)\<close>: a line ends at LF or at CR LF; a lone CR stays.\<close>

fun splitLines :: "jsstring \<Rightarrow> jsstring list" where
  "splitLines [] = [[]]"
| "splitLines [c] = (if c = LF then [[], []] else [[c]])"
| "splitLines (c # d # cs) =
     (if c = LF then [] # splitLines (d # cs)
      else if c = CR \<and> d = LF then [] # splitLines cs
      else consHead c (splitLines (d # cs)))"

text \<open>\<open>s.startsWith(sep)\<close>, \<open>s.includes(sep)\<close> and \<open>s.split(sep)\<close> for a
  non-empty separator \<open>sep\<close>.\<close>

definition startsWith :: "jsstring \<Rightarrow> jsstring \<Rightarrow> bool" where
  "startsWith s sep = (take (length sep) s = sep)"

fun includesStr :: "jsstring \<Rightarrow> jsstring \<Rightarrow> bool" where
  "includesStr [] sep = (sep = [])"
| "includesStr (c # cs) sep = (startsWith (c # cs) sep \<or> includesStr cs sep)"

function splitOn :: "jsstring \<Rightarrow> jsstring \<Rightarrow> jsstring list" where
  "splitOn sep [] = [[]]"
| "splitOn sep (c # cs) =
     (if startsWith (c # cs) sep then [] # splitOn sep (drop (length sep - 1) cs)
      else consHead c (splitOn sep cs))"
  by pat_completeness auto
termination
  by (relation "measure (\<lambda>(sep, s). length s)") auto

text \<open>An array element: \<open>xs[i]\<close> is \<open>undefined\<close> (here \<open>None\<close>) out of range.\<close>

definition elemAt :: "'a list \<Rightarrow> nat \<Rightarrow> 'a option" where
  "elemAt xs i = (if i < length xs then Some (xs ! i) else None)"

record prompt =
  left :: jsstring
  right :: jsstring

text \<open>
  One branch of the delimiter chain:
  \<^verbatim>\<open>
      const [a, b] = line.split("|");
      left = a?.trim();
      right = b?.trim();
  \<close>
\<close>

definition splitPair :: "jsstring \<Rightarrow> jsstring \<Rightarrow> jsstring option \<times> jsstring option" where
  "splitPair sep line =
     (let parts = splitOn sep line
      in (map_option trim (elemAt parts 0), map_option trim (elemAt parts 1)))"

definition parseLine :: "jsstring \<Rightarrow> jsstring option \<times> jsstring option" where
  "parseLine line =
     (if includesStr line PIPE then splitPair PIPE line
      else if includesStr line COMMA then splitPair COMMA line
      else if includesStr line ARROW then splitPair ARROW line
      else if includesStr line EMDASH then splitPair EMDASH line
      else (None, None))"

text \<open>
  \<open>if (left && right && left.length <= 50 && right.length <= 50) prompts.push({ left, right })\<close>:
  a string is truthy when it is not empty.
\<close>

fun pushIfValid :: "jsstring option \<times> jsstring option \<Rightarrow> prompt list \<Rightarrow> prompt list" where
  "pushIfValid (Some l, Some r) prompts =
     (if l \<noteq> [] \<and> r \<noteq> [] \<and> length l \<le> 50 \<and> length r \<le> 50
      then prompts @ [\<lparr>left = l, right = r\<rparr>] else prompts)"
| "pushIfValid _ prompts = prompts"

fun parseLoop :: "jsstring list \<Rightarrow> prompt list \<Rightarrow> prompt list" where
  "parseLoop [] prompts = prompts"
| "parseLoop (line # lines) prompts = parseLoop lines (pushIfValid (parseLine line) prompts)"

definition parsePromptLines :: "jsstring \<Rightarrow> prompt list" where
  "parsePromptLines text =
     (let lines = filter (\<lambda>l. l \<noteq> []) (map trim (splitLines text))
      in take 250 (parseLoop lines []))"

section \<open>Rooms\<close>

datatype phase = LOBBY | CLUE | GUESS | REVEAL | GAMEOVER

text \<open>A player \<open>{ id, name }\<close>; ids are socket ids.\<close>

record player =
  pid :: string
  pname :: string

text \<open>An entry \<open>{ guess, dist, pts }\<close> of \<open>perPlayer\<close>; \<open>null\<close> is \<open>None\<close>.\<close>

record perPlayerEntry =
  pp_guess :: "rat option"
  pp_dist :: "rat option"
  pp_pts :: int

text \<open>The snapshot \<open>room.lastReveal\<close>.\<close>

record reveal =
  rv_target :: "int option"
  rv_finalGuess :: int
  rv_dist :: int
  rv_delta :: int
  rv_total :: int
  rv_perPlayer :: "string \<rightharpoonup> perPlayerEntry"
  rv_cluePts :: int

text \<open>
  The room object.  \<open>guesses\<close> is a JavaScript \<open>Map\<close> and \<open>locked\<close> a
  \<open>Set\<close>: both keep insertion order, which the state payload lists, so they are an
  association list and a list.  \<open>playerScores\<close> is a plain object used as a dictionary.
\<close>

record room =
  code :: string
  hostId :: "string option"
  players :: "player list"
  playerScores :: "string \<rightharpoonup> int"
  phase :: phase
  cluegiverId :: "string option"
  spectrum :: "prompt option"
  target :: "int option"
  clue :: jsstring
  guesses :: "(string \<times> rat) list"
  locked :: "string list"
  finalGuess :: "int option"
  lastReveal :: "reveal option"
  score :: int
  promptPool :: "prompt list"
  totalRounds :: int
  currentRound :: int

text \<open>\<open>Map.get\<close>, \<open>Map.set\<close> (an existing key keeps its place), \<open>Map.delete\<close>,
  \<open>Set.has\<close> and \<open>Set.add\<close>.\<close>

definition mapGet :: "('k \<times> 'v) list \<Rightarrow> 'k \<Rightarrow> 'v option" where
  "mapGet m k = map_of m k"

fun mapSet :: "('k \<times> 'v) list \<Rightarrow> 'k \<Rightarrow> 'v \<Rightarrow> ('k \<times> 'v) list" where
  "mapSet [] k v = [(k, v)]"
| "mapSet ((k', v') # m) k v = (if k' = k then (k, v) # m else (k', v') # mapSet m k v)"

definition mapDelete :: "('k \<times> 'v) list \<Rightarrow> 'k \<Rightarrow> ('k \<times> 'v) list" where
  "mapDelete m k = filter (\<lambda>kv. fst kv \<noteq> k) m"

definition setHas :: "'a list \<Rightarrow> 'a \<Rightarrow> bool" where
  "setHas xs x = (x \<in> set xs)"

definition setAdd :: "'a list \<Rightarrow> 'a \<Rightarrow> 'a list" where
  "setAdd xs x = (if x \<in> set xs then xs else xs @ [x])"

text \<open>\<open>room.playerScores[id] ?? 0\<close>: the score the server reads for a player.\<close>

definition scoreOf :: "(string \<rightharpoonup> int) \<Rightarrow> string \<Rightarrow> int" where
  "scoreOf m i = (case m i of None \<Rightarrow> 0 | Some s \<Rightarrow> s)"

text \<open>\<open>room.target\<close> in arithmetic: \<open>null\<close> coerces to 0.\<close>

definition targetNum :: "room \<Rightarrow> int" where
  "targetNum r = (case target r of None \<Rightarrow> 0 | Some t \<Rightarrow> t)"

text \<open>\<open>room.players.filter((p) => p.id !== room.cluegiverId)\<close>.\<close>

definition guessersOf :: "room \<Rightarrow> player list" where
  "guessersOf r = filter (\<lambda>p. Some (pid p) \<noteq> cluegiverId r) (players r)"

section \<open>What the server sends\<close>

text \<open>
  The payload of \<open>room:state\<close>, built by \<open>safeRoomState\<close>.  The key
  \<open>secretTarget\<close> is present (\<open>Some\<close>) or absent (\<open>None\<close>); when present it
  carries \<open>room.target\<close>.  The \<open>leaderboard\<close> field (ids, names and scores ordered
  with \<open>localeCompare\<close>, sent at game over) is left out: it carries no target.
\<close>

record roomState =
  st_code :: string
  st_hostId :: "string option"
  st_players :: "player list"
  st_playerScores :: "string \<rightharpoonup> int"
  st_phase :: phase
  st_cluegiverId :: "string option"
  st_spectrum :: "prompt option"
  st_clue :: jsstring
  st_guesses :: "(string \<times> rat) list"
  st_locked :: "string list"
  st_score :: int
  st_finalGuess :: "int option"
  st_lastReveal :: "reveal option"
  st_promptPoolCount :: nat
  st_totalRounds :: int
  st_currentRound :: int
  st_secretTarget :: "int option option"

definition safeRoomState :: "room \<Rightarrow> string \<Rightarrow> roomState" where
  "safeRoomState r forPlayerId =
     (let base = \<lparr>
        st_code = code r,
        st_hostId = hostId r,
        st_players = players r,
        st_playerScores = playerScores r,
        st_phase = phase r,
        st_cluegiverId = cluegiverId r,
        st_spectrum = spectrum r,
        st_clue = clue r,
        st_guesses = guesses r,
        st_locked = locked r,
        st_score = score r,
        st_finalGuess = finalGuess r,
        st_lastReveal = lastReveal r,
        st_promptPoolCount = length (promptPool r),
        st_totalRounds = totalRounds r,
        st_currentRound = currentRound r,
        st_secretTarget = None \<rparr>
      in if Some forPlayerId = cluegiverId r \<and> phase r = CLUE
         then base\<lparr>st_secretTarget := Some (target r)\<rparr>
         else base)"

text \<open>An emitted event: \<open>room:joined\<close> and \<open>room:error\<close> go to the requesting socket,
  \<open>room:state\<close> to one player.\<close>

datatype out =
    Joined string string
  | RoomError string string
  | State string roomState

definition broadcastRoom :: "room \<Rightarrow> out list" where
  "broadcastRoom r = map (\<lambda>p. State (pid p) (safeRoomState r (pid p))) (players r)"

section \<open>Rounds\<close>

text \<open>
  An uncaught \<open>TypeError\<close> in a handler (reading \<open>.id\<close> of \<open>undefined\<close>) ends the
  server process; nothing of the registry is left.
\<close>

datatype error = TypeError

text \<open>What the environment supplies: the two results of \<open>Math.random()\<close> that a new
  round draws (spectrum, then target) and the code that \<open>makeRoomCode\<close> returns.\<close>

record env =
  rnd_spectrum :: rat
  rnd_target :: rat
  new_code :: string

definition DEFAULT_PROMPTS :: "prompt list" where
  "DEFAULT_PROMPTS =
     [\<lparr>left = js ''Cold'', right = js ''Hot''\<rparr>,
      \<lparr>left = js ''Boring'', right = js ''Exciting''\<rparr>,
      \<lparr>left = js ''Weak'', right = js ''Strong''\<rparr>,
      \<lparr>left = js ''Gross'', right = js ''Tasty''\<rparr>,
      \<lparr>left = js ''Chaotic'', right = js ''Orderly''\<rparr>,
      \<lparr>left = js ''Overrated'', right = js ''Underrated''\<rparr>]"

definition pickSpectrum :: "room \<Rightarrow> rat \<Rightarrow> prompt option" where
  "pickSpectrum r u =
     (let pool = (if promptPool r \<noteq> [] then promptPool r else DEFAULT_PROMPTS);
          i = \<lfloor>dmul u (of_nat (length pool))\<rfloor>
      in if 0 \<le> i then elemAt pool (nat i) else None)"

text \<open>\<open>findIndex\<close>: \<open>None\<close> stands for -1.\<close>

fun findIndex :: "('a \<Rightarrow> bool) \<Rightarrow> 'a list \<Rightarrow> nat option" where
  "findIndex P [] = None"
| "findIndex P (x # xs) = (if P x then Some 0 else map_option Suc (findIndex P xs))"

definition rotateCluegiver :: "room \<Rightarrow> error + room" where
  "rotateCluegiver r =
     (let nextIdx = (case findIndex (\<lambda>p. Some (pid p) = cluegiverId r) (players r) of
                       Some idx \<Rightarrow> (idx + 1) mod length (players r)
                     | None \<Rightarrow> 0)
      in case elemAt (players r) nextIdx of
           None \<Rightarrow> Inl TypeError
         | Some p \<Rightarrow> Inr (r\<lparr>cluegiverId := Some (pid p)\<rparr>))"

definition startRound :: "env \<Rightarrow> room \<Rightarrow> error + room \<times> out list" where
  "startRound e r =
     (case rotateCluegiver (r\<lparr>phase := CLUE\<rparr>) of
        Inl err \<Rightarrow> Inl err
      | Inr r1 \<Rightarrow>
          (let r2 = r1\<lparr>spectrum := pickSpectrum r1 (rnd_spectrum e),
                       target := Some \<lfloor>dmul (rnd_target e) 101\<rfloor>,
                       clue := [],
                       guesses := [],
                       locked := [],
                       finalGuess := None,
                       lastReveal := None\<rparr>
           in Inr (r2, broadcastRoom r2)))"

text \<open>
  \<open>values.reduce((a, b) => a + b, 0) / values.length\<close> adds the guesses from left to
  right and divides by their number, each operation on doubles.
\<close>

definition computeFinalGuess :: "room \<Rightarrow> int" where
  "computeFinalGuess r =
     (let guessers = map pid (guessersOf r);
          lockedGuessers = filter (\<lambda>i. setHas (locked r) i) guessers;
          vals = List.map_filter (\<lambda>i. mapGet (guesses r) i) lockedGuessers
      in if length vals = 0 then 50
         else (let avg = ddiv (foldl dadd 0 vals) (of_nat (length vals))
               in Math_round avg))"

text \<open>
  The loop of \<open>revealRound\<close> over the guessers.  Its state is
  \<open>(perPlayer, room.playerScores, sumPoints, counted)\<close>.  The distance
  \<open>Math.abs(gv - room.target)\<close> is the absolute value of a difference of doubles.  The
  points, their sum, the counter and the scores are integers far below \<open>2^53\<close>, on which
  \<open>+\<close> is exact.
\<close>

type_synonym revealAcc = "(string \<rightharpoonup> perPlayerEntry) \<times> (string \<rightharpoonup> int) \<times> int \<times> nat"

fun revealLoop :: "(string \<times> rat) list \<Rightarrow> int \<Rightarrow> player list \<Rightarrow> revealAcc \<Rightarrow> revealAcc" where
  "revealLoop g t [] acc = acc"
| "revealLoop g t (p # ps) (perPlayer, scores, sumPoints, counted) =
     (case mapGet g (pid p) of
        Some gv \<Rightarrow>
          (let d = \<bar>dsub gv (of_int t)\<bar>;
               pts = scoreFromDistance d
           in revealLoop g t ps
                (perPlayer(pid p \<mapsto> \<lparr>pp_guess = Some gv, pp_dist = Some d, pp_pts = pts\<rparr>),
                 scores(pid p \<mapsto> scoreOf scores (pid p) + pts),
                 sumPoints + pts,
                 counted + 1))
      | None \<Rightarrow>
          revealLoop g t ps
            (perPlayer(pid p \<mapsto> \<lparr>pp_guess = None, pp_dist = None, pp_pts = 0\<rparr>),
             scores(pid p \<mapsto> scoreOf scores (pid p) + 0),
             sumPoints,
             counted))"

text \<open>In \<open>revealRound\<close>, \<open>if (room.cluegiverId)\<close> holds for an id that is neither
  \<open>null\<close> nor the empty string.\<close>

definition revealRound :: "room \<Rightarrow> room \<times> out list" where
  "revealRound r =
     (let fg = computeFinalGuess (r\<lparr>phase := REVEAL\<rparr>);
          r1 = r\<lparr>phase := REVEAL, finalGuess := Some fg\<rparr>;
          (perPlayer, scores, sumPoints, counted) =
             revealLoop (guesses r1) (targetNum r1) (guessersOf r1)
               (Map.empty, playerScores r1, 0, 0);
          cluePts = (if counted > 0 then Math_round (ddiv (of_int sumPoints) (of_nat counted))
                     else 0);
          scores' = (case cluegiverId r1 of
                       Some c \<Rightarrow> (if c \<noteq> [] then scores(c \<mapsto> scoreOf scores c + cluePts) else scores)
                     | None \<Rightarrow> scores);
          total = score r1 + sumPoints;
          teamDist = \<bar>fg - targetNum r1\<bar>;
          teamDelta = scoreFromDistance (of_int teamDist);
          r2 = r1\<lparr>playerScores := scores',
                    score := total,
                    lastReveal := Some \<lparr>rv_target = target r1,
                                         rv_finalGuess = fg,
                                         rv_dist = teamDist,
                                         rv_delta = teamDelta,
                                         rv_total = total,
                                         rv_perPlayer = perPlayer,
                                         rv_cluePts = cluePts\<rparr>\<rparr>
      in (r2, broadcastRoom r2))"

definition endGame :: "room \<Rightarrow> room \<times> out list" where
  "endGame r =
     (let r1 = r\<lparr>phase := GAMEOVER,
                   spectrum := None,
                   target := None,
                   clue := [],
                   guesses := [],
                   locked := [],
                   finalGuess := None,
                   lastReveal := None\<rparr>
      in (r1, broadcastRoom r1))"

section \<open>The handlers\<close>

text \<open>The registry \<open>rooms\<close>: a \<open>Map\<close> from room code to room, in insertion order.\<close>

type_synonym registry = "(string \<times> room) list"

datatype event =
    RoomCreate string
  | RoomJoin string string
  | PromptsSet string jsstring
  | ConfigSetRounds string jsnum
  | GameStart string "jsnum option"
  | RoundClue string jsstring
  | RoundGuess string jsnum
  | RoundLock string
  | RoundRevealNow string
  | RoundNext string
  | GameReplay string
  | Disconnect

text \<open>\<open>name || "Player"\<close> and \<open>room.totalRounds || 5\<close>.\<close>

definition nameOrPlayer :: "string \<Rightarrow> string" where
  "nameOrPlayer name = (if name = [] then ''Player'' else name)"

definition orFive :: "int \<Rightarrow> int" where
  "orFive n = (if n = 0 then 5 else n)"

text \<open>\<open>room:create\<close>\<close>

definition onRoomCreate :: "env \<Rightarrow> registry \<Rightarrow> string \<Rightarrow> string \<Rightarrow> registry \<times> out list" where
  "onRoomCreate e rs sid name =
     (let c = new_code e;
          r = \<lparr>code = c,
               hostId = Some sid,
               players = [\<lparr>pid = sid, pname = nameOrPlayer name\<rparr>],
               playerScores = [sid \<mapsto> 0],
               phase = LOBBY,
               cluegiverId = Some sid,
               spectrum = None,
               target = None,
               clue = [],
               guesses = [],
               locked = [],
               finalGuess = None,
               lastReveal = None,
               score = 0,
               promptPool = [],
               totalRounds = 5,
               currentRound = 0\<rparr>
      in (mapSet rs c r, Joined sid c # broadcastRoom r))"

text \<open>\<open>room:join\<close>, for a room that exists.\<close>

definition onRoomJoin :: "room \<Rightarrow> string \<Rightarrow> string \<Rightarrow> string \<Rightarrow> room \<times> out list" where
  "onRoomJoin r sid c name =
     (let r' = (if find (\<lambda>p. pid p = sid) (players r) = None
                then r\<lparr>players := players r @ [\<lparr>pid = sid, pname = nameOrPlayer name\<rparr>],
                       playerScores := (playerScores r)(sid \<mapsto> scoreOf (playerScores r) sid)\<rparr>
                else r)
      in (r', Joined sid c # broadcastRoom r'))"

text \<open>\<open>prompts:set\<close>\<close>

definition onPromptsSet :: "room \<Rightarrow> string \<Rightarrow> jsstring \<Rightarrow> room \<times> out list" where
  "onPromptsSet r sid text =
     (if Some sid \<noteq> hostId r then (r, [])
      else if phase r \<noteq> LOBBY then (r, [])
      else (let r' = r\<lparr>promptPool := parsePromptLines text\<rparr> in (r', broadcastRoom r')))"

text \<open>\<open>config:setRounds\<close>\<close>

definition onConfigSetRounds :: "room \<Rightarrow> string \<Rightarrow> jsnum \<Rightarrow> room \<times> out list" where
  "onConfigSetRounds r sid n =
     (if Some sid \<noteq> hostId r then (r, [])
      else if phase r \<noteq> LOBBY then (r, [])
      else (let r' = r\<lparr>totalRounds := clampInt n 1 50 (orFive (totalRounds r))\<rparr>
            in (r', broadcastRoom r')))"

text \<open>\<open>for (const p of room.players) room.playerScores[p.id] = 0\<close>\<close>

definition zeroScores :: "player list \<Rightarrow> (string \<rightharpoonup> int) \<Rightarrow> (string \<rightharpoonup> int)" where
  "zeroScores ps m = foldl (\<lambda>m p. m(pid p \<mapsto> 0)) m ps"

text \<open>\<open>room.players[room.players.length - 1].id\<close>: a \<open>TypeError\<close> on an empty list.\<close>

definition lastPlayerId :: "player list \<Rightarrow> error + string" where
  "lastPlayerId ps = (case ps of [] \<Rightarrow> Inl TypeError | _ \<Rightarrow> Inr (pid (last ps)))"

text \<open>\<open>game:start\<close>\<close>

definition onGameStart :: "env \<Rightarrow> room \<Rightarrow> string \<Rightarrow> jsnum option \<Rightarrow> error + room \<times> out list" where
  "onGameStart e r sid n =
     (if Some sid \<noteq> hostId r then Inr (r, [])
      else if length (players r) < 2 then Inr (r, [RoomError sid ''Need at least 2 players.''])
      else (let r1 = (case n of
                        Some v \<Rightarrow> r\<lparr>totalRounds := clampInt v 1 50 (orFive (totalRounds r))\<rparr>
                      | None \<Rightarrow> r);
                r2 = r1\<lparr>score := 0, playerScores := zeroScores (players r1) (playerScores r1),
                          currentRound := 1\<rparr>
            in case lastPlayerId (players r2) of
                 Inl err \<Rightarrow> Inl err
               | Inr i \<Rightarrow> startRound e (r2\<lparr>cluegiverId := Some i\<rparr>)))"

text \<open>\<open>round:clue\<close>\<close>

definition onRoundClue :: "room \<Rightarrow> string \<Rightarrow> jsstring \<Rightarrow> room \<times> out list" where
  "onRoundClue r sid text =
     (if phase r \<noteq> CLUE then (r, [])
      else if Some sid \<noteq> cluegiverId r then (r, [])
      else (let r' = r\<lparr>clue := take 140 text, phase := GUESS\<rparr> in (r', broadcastRoom r')))"

text \<open>\<open>round:guess\<close>\<close>

definition onRoundGuess :: "room \<Rightarrow> string \<Rightarrow> jsnum \<Rightarrow> room \<times> out list" where
  "onRoundGuess r sid v =
     (if phase r \<noteq> GUESS then (r, [])
      else if Some sid = cluegiverId r then (r, [])
      else (let r' = r\<lparr>guesses := mapSet (guesses r) sid (clamp01_100 v)\<rparr>
            in (r', broadcastRoom r')))"

text \<open>\<open>round:lock\<close>\<close>

definition onRoundLock :: "room \<Rightarrow> string \<Rightarrow> room \<times> out list" where
  "onRoundLock r sid =
     (if phase r \<noteq> GUESS then (r, [])
      else if Some sid = cluegiverId r then (r, [])
      else (let r' = r\<lparr>locked := setAdd (locked r) sid\<rparr>;
                allLocked = list_all (\<lambda>p. setHas (locked r') (pid p)) (guessersOf r')
            in if allLocked then revealRound r' else (r', broadcastRoom r')))"

text \<open>\<open>round:revealNow\<close>\<close>

definition onRoundRevealNow :: "room \<Rightarrow> string \<Rightarrow> room \<times> out list" where
  "onRoundRevealNow r sid =
     (if Some sid \<noteq> hostId r then (r, [])
      else if phase r \<noteq> GUESS then (r, [])
      else revealRound r)"

text \<open>\<open>round:next\<close>\<close>

definition onRoundNext :: "env \<Rightarrow> room \<Rightarrow> string \<Rightarrow> error + room \<times> out list" where
  "onRoundNext e r sid =
     (if Some sid \<noteq> hostId r then Inr (r, [])
      else if phase r \<noteq> REVEAL then Inr (r, [])
      else if currentRound r \<ge> totalRounds r then Inr (endGame r)
      else startRound e (r\<lparr>currentRound := currentRound r + 1\<rparr>))"

text \<open>\<open>game:replay\<close>\<close>

definition onGameReplay :: "env \<Rightarrow> room \<Rightarrow> string \<Rightarrow> error + room \<times> out list" where
  "onGameReplay e r sid =
     (if Some sid \<noteq> hostId r then Inr (r, [])
      else (let r2 = r\<lparr>score := 0, playerScores := zeroScores (players r) (playerScores r),
                         currentRound := 1\<rparr>
            in case lastPlayerId (players r2) of
                 Inl err \<Rightarrow> Inl err
               | Inr i \<Rightarrow> startRound e (r2\<lparr>cluegiverId := Some i\<rparr>)))"

text \<open>\<open>room.players[0]?.id || null\<close>\<close>

definition firstIdOrNull :: "player list \<Rightarrow> string option" where
  "firstIdOrNull ps = (case ps of [] \<Rightarrow> None | p # _ \<Rightarrow> (if pid p = [] then None else Some (pid p)))"

text \<open>
  The body of the \<open>disconnect\<close> loop for one room: the room that stays in the registry
  (\<open>None\<close> when it is deleted) and what is broadcast.
\<close>

definition disconnectRoom :: "room \<Rightarrow> string \<Rightarrow> room option \<times> out list" where
  "disconnectRoom r sid =
     (let before = length (players r);
          r1 = r\<lparr>players := filter (\<lambda>p. pid p \<noteq> sid) (players r)\<rparr>
      in if length (players r1) \<noteq> before then
           (let r2 = r1\<lparr>playerScores := (playerScores r1)(sid := None)\<rparr>;
                r3 = (if hostId r2 = Some sid then r2\<lparr>hostId := firstIdOrNull (players r2)\<rparr> else r2);
                r4 = (if cluegiverId r3 = Some sid
                      then r3\<lparr>cluegiverId := firstIdOrNull (players r3)\<rparr> else r3)
            in if length (players r4) = 0 then (None, []) else (Some r4, broadcastRoom r4))
         else (Some r1, []))"

fun disconnectAll :: "registry \<Rightarrow> string \<Rightarrow> registry \<times> out list" where
  "disconnectAll [] sid = ([], [])"
| "disconnectAll ((c, r) # rs) sid =
     (let (r', outs) = disconnectRoom r sid;
          (rs', outs') = disconnectAll rs sid
      in (case r' of None \<Rightarrow> rs' | Some x \<Rightarrow> (c, x) # rs', outs @ outs'))"

text \<open>
  A handler that starts with \<open>const room = rooms.get(code); if (!room) return;\<close> and then
  changes the room object in place.
\<close>

definition withRoom ::
  "registry \<Rightarrow> string \<Rightarrow> (room \<Rightarrow> error + room \<times> out list) \<Rightarrow> error + registry \<times> out list" where
  "withRoom rs c h =
     (case mapGet rs c of
        None \<Rightarrow> Inr (rs, [])
      | Some r \<Rightarrow> (case h r of
                     Inl err \<Rightarrow> Inl err
                   | Inr (r', outs) \<Rightarrow> Inr (mapSet rs c r', outs)))"

text \<open>One inbound event from socket \<open>sid\<close>, handled to completion.\<close>

fun step :: "env \<Rightarrow> registry \<Rightarrow> string \<Rightarrow> event \<Rightarrow> error + registry \<times> out list" where
  "step e rs sid (RoomCreate name) = Inr (onRoomCreate e rs sid name)"
| "step e rs sid (RoomJoin c name) =
     (case mapGet rs c of
        None \<Rightarrow> Inr (rs, [RoomError sid ''Room not found.''])
      | Some r \<Rightarrow> (let (r', outs) = onRoomJoin r sid c name in Inr (mapSet rs c r', outs)))"
| "step e rs sid (PromptsSet c text) = withRoom rs c (\<lambda>r. Inr (onPromptsSet r sid text))"
| "step e rs sid (ConfigSetRounds c n) = withRoom rs c (\<lambda>r. Inr (onConfigSetRounds r sid n))"
| "step e rs sid (GameStart c n) = withRoom rs c (\<lambda>r. onGameStart e r sid n)"
| "step e rs sid (RoundClue c text) = withRoom rs c (\<lambda>r. Inr (onRoundClue r sid text))"
| "step e rs sid (RoundGuess c v) = withRoom rs c (\<lambda>r. Inr (onRoundGuess r sid v))"
| "step e rs sid (RoundLock c) = withRoom rs c (\<lambda>r. Inr (onRoundLock r sid))"
| "step e rs sid (RoundRevealNow c) = withRoom rs c (\<lambda>r. Inr (onRoundRevealNow r sid))"
| "step e rs sid (RoundNext c) = withRoom rs c (\<lambda>r. onRoundNext e r sid)"
| "step e rs sid (GameReplay c) = withRoom rs c (\<lambda>r. onGameReplay e r sid)"
| "step e rs sid Disconnect = Inr (disconnectAll rs sid)"

section \<open>Reference definitions for the properties\<close>

subsection \<open>The parser, line by line\<close>

text \<open>\<open>breakAt sep s\<close> is the text before the first occurrence of \<open>sep\<close> in \<open>s\<close> and
  the text after it (all of \<open>s\<close> and nothing when \<open>sep\<close> does not occur).\<close>

fun breakAt :: "jsstring \<Rightarrow> jsstring \<Rightarrow> jsstring \<times> jsstring" where
  "breakAt sep [] = ([], [])"
| "breakAt sep (c # cs) =
     (if startsWith (c # cs) sep then ([], drop (length sep - 1) cs)
      else (c # fst (breakAt sep cs), snd (breakAt sep cs)))"

text \<open>The first of \<open>|\<close>, \<open>,\<close>, \<open>->\<close>, em dash, in this order, that the line holds.\<close>

definition firstDelimiter :: "jsstring \<Rightarrow> jsstring option" where
  "firstDelimiter line = find (\<lambda>d. includesStr line d) [PIPE, COMMA, ARROW, EMDASH]"

text \<open>A pair is kept when both sides are non-empty and at most 50 code units long.\<close>

definition validPair :: "jsstring \<Rightarrow> jsstring \<Rightarrow> prompt option" where
  "validPair l r =
     (if l \<noteq> [] \<and> r \<noteq> [] \<and> length l \<le> 50 \<and> length r \<le> 50
      then Some \<lparr>left = l, right = r\<rparr> else None)"

text \<open>The specification's reading: the line is cut in two at the first occurrence of its
  delimiter, and the right side is all that follows.\<close>

definition spec_parseLine :: "jsstring \<Rightarrow> prompt option" where
  "spec_parseLine line =
     (case firstDelimiter line of
        None \<Rightarrow> None
      | Some d \<Rightarrow> validPair (trim (fst (breakAt d line))) (trim (snd (breakAt d line))))"

definition spec_parsePromptLines :: "jsstring \<Rightarrow> prompt list" where
  "spec_parsePromptLines text =
     take 250 (List.map_filter spec_parseLine
       (filter (\<lambda>l. l \<noteq> []) (map trim (splitLines text))))"

text \<open>What \<open>const [a, b] = line.split(d)\<close> keeps: the left side is the text before the
  first occurrence of the delimiter, the right side the text between its first and its
  second occurrence (all that follows when there is no second one).\<close>

definition pieces_parseLine :: "jsstring \<Rightarrow> prompt option" where
  "pieces_parseLine line =
     (case firstDelimiter line of
        None \<Rightarrow> None
      | Some d \<Rightarrow> validPair (trim (fst (breakAt d line)))
                           (trim (fst (breakAt d (snd (breakAt d line))))))"

subsection \<open>The stored guess as the specification words it\<close>

definition spec_storedGuess :: "jsnum \<Rightarrow> rat" where
  "spec_storedGuess v =
     (case v of Fin x \<Rightarrow> of_int (max 0 (min 100 (Math_round x))) | _ \<Rightarrow> 50)"

subsection \<open>A room in play\<close>

text \<open>Three players in the fourth round of five; Ann is host and gives the clue, the target
  is 50, Bob has guessed 45 and locked, Cy has guessed 60 and has not locked yet.\<close>

definition demoRoom :: room where
  "demoRoom =
     \<lparr>code = ''ABCDE'',
      hostId = Some ''a'',
      players = [\<lparr>pid = ''a'', pname = ''Ann''\<rparr>, \<lparr>pid = ''b'', pname = ''Bob''\<rparr>,
                 \<lparr>pid = ''c'', pname = ''Cy''\<rparr>],
      playerScores = [''a'' \<mapsto> 3, ''b'' \<mapsto> 2, ''c'' \<mapsto> 4],
      phase = GUESS,
      cluegiverId = Some ''a'',
      spectrum = Some \<lparr>left = js ''Cold'', right = js ''Hot''\<rparr>,
      target = Some 50,
      clue = js ''tea'',
      guesses = [(''b'', 45), (''c'', 60)],
      locked = [''b''],
      finalGuess = None,
      lastReveal = None,
      score = 6,
      promptPool = [],
      totalRounds = 5,
      currentRound = 4\<rparr>"

definition demoRooms :: registry where
  "demoRooms = [(''ABCDE'', demoRoom)]"

definition demoEnv :: env where
  "demoEnv = \<lparr>rnd_spectrum = 1 / 2, rnd_target = 1 / 4, new_code = ''FGHIJ''\<rparr>"

subsection \<open>Rooms at the end of a round\<close>

text \<open>Four players, target 50: Bob has guessed 62.5 and locked, Cy has guessed 45, Dee has
  not guessed.\<close>

definition mixedRoom :: room where
  "mixedRoom =
     demoRoom\<lparr>players := [\<lparr>pid = ''a'', pname = ''Ann''\<rparr>, \<lparr>pid = ''b'', pname = ''Bob''\<rparr>,
                           \<lparr>pid = ''c'', pname = ''Cy''\<rparr>, \<lparr>pid = ''d'', pname = ''Dee''\<rparr>],
              playerScores := [''a'' \<mapsto> 3, ''b'' \<mapsto> 2, ''c'' \<mapsto> 4, ''d'' \<mapsto> 1],
              guesses := [(''b'', 125 / 2), (''c'', 45)]\<rparr>"

text \<open>The room in play with target 11.  Bob sends \<open>round:guess\<close> with the value
  \<open>1 - 2^(-53)\<close>, the largest double below 1.\<close>

definition seamStart :: room where
  "seamStart = demoRoom\<lparr>target := Some 11\<rparr>"

definition seamGuess :: rat where
  "seamGuess = 9007199254740991 / 9007199254740992"

definition seamRoom :: room where
  "seamRoom = seamStart\<lparr>guesses := [(''b'', seamGuess), (''c'', 60)]\<rparr>"

text \<open>The room in play where Bob has guessed \<open>1 - 2^(-53)\<close> and Cy \<open>2^(-54)\<close>, and both
  have locked.\<close>

definition tieRoom :: room where
  "tieRoom =
     demoRoom\<lparr>guesses := [(''b'', 9007199254740991 / 9007199254740992),
                          (''c'', 1 / 18014398509481984)],
              locked := [''b'', ''c'']\<rparr>"

text \<open>The room in play after Ann, host and clue-giver, has left: Bob, who has locked, is
  host and clue-giver.\<close>

definition orphanRoom :: room where
  "orphanRoom =
     demoRoom\<lparr>players := [\<lparr>pid = ''b'', pname = ''Bob''\<rparr>, \<lparr>pid = ''c'', pname = ''Cy''\<rparr>],
              playerScores := (playerScores demoRoom)(''a'' := None),
              hostId := Some ''b'',
              cluegiverId := Some ''b''\<rparr>"

subsection \<open>The reveal, player by player\<close>

text \<open>The tier table of the specification: 4 points for a distance of at most 10, 3 for at
  most 17, 2 for at most 24, 1 for at most 34, and 0 beyond.\<close>

definition spec_tier :: "rat \<Rightarrow> int" where
  "spec_tier d =
     (if d \<le> 10 then 4 else if d \<le> 17 then 3 else if d \<le> 24 then 2 else if d \<le> 34 then 1 else 0)"

text \<open>The distance between the guess \<open>gv\<close> and the target \<open>t\<close> in double arithmetic: the
  difference is rounded to the nearest double.\<close>

definition doubleDist :: "rat \<Rightarrow> int \<Rightarrow> rat" where
  "doubleDist gv t = \<bar>fl (gv - of_int t)\<bar>"

text \<open>A number with at most 46 binary digits after the point, that is a multiple of
  \<open>2^(-46)\<close>: every integer is one, and so are 45.5 and 62.25.\<close>

definition binary46 :: "rat \<Rightarrow> bool" where
  "binary46 x = (of_int \<lfloor>x * 2 ^ 46\<rfloor> = x * 2 ^ 46)"

text \<open>The \<open>perPlayer\<close> record and the tier points of the player with id \<open>i\<close>, given
  the guesses \<open>g\<close> and the target \<open>t\<close>: no guess gives no points.\<close>

definition entryOf :: "(string \<times> rat) list \<Rightarrow> int \<Rightarrow> string \<Rightarrow> perPlayerEntry" where
  "entryOf g t i =
     (case mapGet g i of
        Some gv \<Rightarrow> \<lparr>pp_guess = Some gv, pp_dist = Some (doubleDist gv t),
                    pp_pts = spec_tier (doubleDist gv t)\<rparr>
      | None \<Rightarrow> \<lparr>pp_guess = None, pp_dist = None, pp_pts = 0\<rparr>)"

definition tierOf :: "(string \<times> rat) list \<Rightarrow> int \<Rightarrow> string \<Rightarrow> int" where
  "tierOf g t i =
     (case mapGet g i of Some gv \<Rightarrow> spec_tier (doubleDist gv t) | None \<Rightarrow> 0)"

text \<open>The tier points of player \<open>p\<close> in the round of room \<open>r\<close>.\<close>

definition roundPoints :: "room \<Rightarrow> player \<Rightarrow> int" where
  "roundPoints r p = tierOf (guesses r) (targetNum r) (pid p)"

text \<open>The guessers who submitted a numeric guess.\<close>

definition submitted :: "room \<Rightarrow> player list" where
  "submitted r = filter (\<lambda>p. mapGet (guesses r) (pid p) \<noteq> None) (guessersOf r)"

text \<open>The clue-giver's points as the specification words them: the arithmetic mean of the
  tier points of the guessers who submitted a guess, rounded to the nearest integer (a half
  goes up), 0 when there is none.\<close>

definition spec_cluePts :: "room \<Rightarrow> int" where
  "spec_cluePts r =
     (if submitted r = [] then 0
      else round (of_int (sum_list (map (roundPoints r) (submitted r)))
                    / (of_nat (length (submitted r)) :: rat)))"

text \<open>The guess values of the guessers (the players other than the clue-giver) who both
  locked and submitted a guess.\<close>

definition lockedGuesses :: "room \<Rightarrow> rat list" where
  "lockedGuesses r =
     List.map_filter (\<lambda>p. if pid p \<in> set (locked r) then mapGet (guesses r) (pid p) else None)
       (guessersOf r)"

text \<open>The mean of a list of values in double arithmetic: the values are added from left to
  right, each sum rounded to the nearest double, and the quotient is rounded again.\<close>

definition doubleMean :: "rat list \<Rightarrow> rat" where
  "doubleMean vs = fl (foldl (\<lambda>a b. fl (a + b)) 0 vs / of_nat (length vs))"

text \<open>The rounded arithmetic mean of the guesses of the guessers who locked, 50 when there
  is none.\<close>

definition spec_finalGuess :: "room \<Rightarrow> int" where
  "spec_finalGuess r =
     (if lockedGuesses r = [] then 50
      else round (sum_list (lockedGuesses r) / of_nat (length (lockedGuesses r))))"

text \<open>The final guess in the words of the specification: the rounded arithmetic mean of
  the guess values of the players who both submitted a guess and locked, 50 when there is
  none.\<close>

definition claimedGuesses :: "room \<Rightarrow> rat list" where
  "claimedGuesses r =
     List.map_filter (\<lambda>p. if pid p \<in> set (locked r) then mapGet (guesses r) (pid p) else None)
       (players r)"

definition claimed_finalGuess :: "room \<Rightarrow> int" where
  "claimed_finalGuess r =
     (if claimedGuesses r = [] then 50
      else round (sum_list (claimedGuesses r) / of_nat (length (claimedGuesses r))))"

text \<open>The loop of \<open>revealRound\<close> as run on room \<open>r\<close>, and the \<open>cluePts\<close> computed
  from its counters.\<close>

definition loopOf :: "room \<Rightarrow> revealAcc" where
  "loopOf r = revealLoop (guesses r) (targetNum r) (guessersOf r) (Map.empty, playerScores r, 0, 0)"

definition cluePtsOf :: "room \<Rightarrow> int" where
  "cluePtsOf r =
     (if snd (snd (snd (loopOf r))) > 0
      then Math_round (ddiv (of_int (fst (snd (snd (loopOf r)))))
                         (of_nat (snd (snd (snd (loopOf r))))))
      else 0)"

subsection \<open>Rooms of the registry, step by step\<close>

text \<open>The room that \<open>room:create\<close> makes.\<close>

definition freshRoom :: "env \<Rightarrow> string \<Rightarrow> string \<Rightarrow> room" where
  "freshRoom e sid name =
     \<lparr>code = new_code e,
      hostId = Some sid,
      players = [\<lparr>pid = sid, pname = nameOrPlayer name\<rparr>],
      playerScores = [sid \<mapsto> 0],
      phase = LOBBY,
      cluegiverId = Some sid,
      spectrum = None,
      target = None,
      clue = [],
      guesses = [],
      locked = [],
      finalGuess = None,
      lastReveal = None,
      score = 0,
      promptPool = [],
      totalRounds = 5,
      currentRound = 0\<rparr>"

text \<open>The room code that the payload of an event carries.\<close>

fun codeOf :: "event \<Rightarrow> string option" where
  "codeOf (RoomCreate name) = None"
| "codeOf (RoomJoin c name) = Some c"
| "codeOf (PromptsSet c t) = Some c"
| "codeOf (ConfigSetRounds c n) = Some c"
| "codeOf (GameStart c n) = Some c"
| "codeOf (RoundClue c t) = Some c"
| "codeOf (RoundGuess c v) = Some c"
| "codeOf (RoundLock c) = Some c"
| "codeOf (RoundRevealNow c) = Some c"
| "codeOf (RoundNext c) = Some c"
| "codeOf (GameReplay c) = Some c"
| "codeOf Disconnect = None"

text \<open>\<open>handled e r sid ev res\<close>: the handler of event \<open>ev\<close>, run on the room \<open>r\<close> that the
  event names, returns \<open>res\<close> (the room as it leaves it, and what it emits).\<close>

definition handled :: "env \<Rightarrow> room \<Rightarrow> string \<Rightarrow> event \<Rightarrow> room \<times> out list \<Rightarrow> bool" where
  "handled e r sid ev res =
     (case ev of
        RoomCreate name \<Rightarrow> False
      | RoomJoin c name \<Rightarrow> onRoomJoin r sid c name = res
      | PromptsSet c t \<Rightarrow> onPromptsSet r sid t = res
      | ConfigSetRounds c n \<Rightarrow> onConfigSetRounds r sid n = res
      | GameStart c n \<Rightarrow> onGameStart e r sid n = Inr res
      | RoundClue c t \<Rightarrow> onRoundClue r sid t = res
      | RoundGuess c v \<Rightarrow> onRoundGuess r sid v = res
      | RoundLock c \<Rightarrow> onRoundLock r sid = res
      | RoundRevealNow c \<Rightarrow> onRoundRevealNow r sid = res
      | RoundNext c \<Rightarrow> onRoundNext e r sid = Inr res
      | GameReplay c \<Rightarrow> onGameReplay e r sid = Inr res
      | Disconnect \<Rightarrow> False)"

text \<open>A property of every room of the registry.\<close>

definition roomsAll :: "(room \<Rightarrow> bool) \<Rightarrow> registry \<Rightarrow> bool" where
  "roomsAll P rs = list_all (\<lambda>cr. P (snd cr)) rs"

text \<open>The reveal snapshot is there during REVEAL, with the round's target, and only then.\<close>

definition snapshotOk :: "room \<Rightarrow> bool" where
  "snapshotOk r =
     (if phase r = REVEAL then (\<exists>rv. lastReveal r = Some rv \<and> rv_target rv = target r)
      else lastReveal r = None)"

text \<open>The locked ids are ids of players of the room other than the clue-giver.\<close>

definition lockedOk :: "room \<Rightarrow> bool" where
  "lockedOk r = (set (locked r) \<subseteq> pid ` set (players r) - set_option (cluegiverId r))"

text \<open>The room in play in a game of four rounds, revealed in its last round.\<close>

definition revealedRoom :: room where
  "revealedRoom = fst (revealRound (demoRoom\<lparr>totalRounds := 4\<rparr>))"

subsection \<open>Guards\<close>

text \<open>The guard of an event is violated in room \<open>r\<close> for sender \<open>sid\<close>, as the
  handlers check it: wrong actor, or wrong phase.\<close>

definition guardViolated :: "room \<Rightarrow> string \<Rightarrow> event \<Rightarrow> bool" where
  "guardViolated r sid ev =
     (case ev of
        PromptsSet c t \<Rightarrow> Some sid \<noteq> hostId r \<or> phase r \<noteq> LOBBY
      | ConfigSetRounds c n \<Rightarrow> Some sid \<noteq> hostId r \<or> phase r \<noteq> LOBBY
      | GameStart c n \<Rightarrow> Some sid \<noteq> hostId r
      | RoundClue c t \<Rightarrow> phase r \<noteq> CLUE \<or> Some sid \<noteq> cluegiverId r
      | RoundGuess c v \<Rightarrow> phase r \<noteq> GUESS \<or> Some sid = cluegiverId r
      | RoundLock c \<Rightarrow> phase r \<noteq> GUESS \<or> Some sid = cluegiverId r
      | RoundRevealNow c \<Rightarrow> Some sid \<noteq> hostId r \<or> phase r \<noteq> GUESS
      | RoundNext c \<Rightarrow> Some sid \<noteq> hostId r \<or> phase r \<noteq> REVEAL
      | GameReplay c \<Rightarrow> Some sid \<noteq> hostId r
      | _ \<Rightarrow> False)"

subsection \<open>Players and a room with one player\<close>

text \<open>No two players of the room share an id.\<close>

definition playersDistinct :: "room \<Rightarrow> bool" where
  "playersDistinct r = distinct (map pid (players r))"

text \<open>A registry with one room, just created by Ann.\<close>

definition soloRooms :: registry where
  "soloRooms = [(''FGHIJ'', freshRoom demoEnv ''a'' ''Ann'')]"

section \<open>Properties\<close>

subsection \<open>Maps and sets\<close>

lemma mapGet_mapSet: "mapGet (mapSet m k v) k' = (if k' = k then Some v else mapGet m k')"
  by (induction m) (auto simp: mapGet_def)

lemma mapSet_same: "mapGet m k = Some v \<Longrightarrow> mapSet m k v = m"
  by (induction m) (auto simp: mapGet_def split: if_splits)

subsection \<open>The prompt parser\<close>

lemma splitOn_not_Nil: "splitOn sep s \<noteq> []"
proof (induction sep s rule: splitOn.induct)
  case (1 sep)
  then show ?case by simp
next
  case (2 sep c cs)
  then show ?case by (cases "splitOn sep cs") auto
qed

lemma splitOn_hd: "hd (splitOn sep s) = fst (breakAt sep s)"
proof (induction sep s rule: splitOn.induct)
  case (1 sep)
  then show ?case by simp
next
  case (2 sep c cs)
  then show ?case by (cases "splitOn sep cs") (auto simp: splitOn_not_Nil)
qed

text \<open>\<open>split\<close> cuts at every occurrence: after the first piece it goes on with the
  rest of the line.\<close>

lemma splitOn_unfold:
  "includesStr s sep \<Longrightarrow> sep \<noteq> [] \<Longrightarrow>
   splitOn sep s = fst (breakAt sep s) # splitOn sep (snd (breakAt sep s))"
proof (induction sep s rule: splitOn.induct)
  case (1 sep)
  then show ?case by simp
next
  case (2 sep c cs)
  show ?case
  proof (cases "startsWith (c # cs) sep")
    case True
    then show ?thesis by simp
  next
    case False
    with 2 show ?thesis by simp
  qed
qed

lemma breakAt_absent: "\<not> includesStr s sep \<Longrightarrow> breakAt sep s = (s, [])"
  by (induction s) auto

lemma elemAt_0: "xs \<noteq> [] \<Longrightarrow> elemAt xs 0 = Some (hd xs)"
  by (cases xs) (auto simp: elemAt_def)

lemma elemAt_1: "ys \<noteq> [] \<Longrightarrow> elemAt (x # ys) 1 = Some (hd ys)"
  by (cases ys) (auto simp: elemAt_def)

lemma splitPair_eq:
  assumes "includesStr line d" and "d \<noteq> []"
  shows "splitPair d line = (Some (trim (fst (breakAt d line))),
                             Some (trim (fst (breakAt d (snd (breakAt d line))))))"
proof -
  have first: "elemAt (splitOn d line) 0 = Some (fst (breakAt d line))"
    by (simp add: elemAt_0 splitOn_not_Nil splitOn_hd)
  have "elemAt (splitOn d line) 1
          = elemAt (fst (breakAt d line) # splitOn d (snd (breakAt d line))) 1"
    using splitOn_unfold [OF assms] by simp
  also have "\<dots> = Some (fst (breakAt d (snd (breakAt d line))))"
    using elemAt_1 [OF splitOn_not_Nil] by (simp add: splitOn_hd)
  finally show ?thesis
    using first by (simp add: splitPair_def)
qed

lemma parseLine_eq:
  "parseLine line =
     (case firstDelimiter line of
        None \<Rightarrow> (None, None)
      | Some d \<Rightarrow> (Some (trim (fst (breakAt d line))),
                   Some (trim (fst (breakAt d (snd (breakAt d line)))))))"
  by (simp add: parseLine_def firstDelimiter_def splitPair_eq
        PIPE_def COMMA_def ARROW_def EMDASH_def)

lemma pushIfValid_parseLine:
  "pushIfValid (parseLine line) acc =
     acc @ (case pieces_parseLine line of None \<Rightarrow> [] | Some p \<Rightarrow> [p])"
  by (simp add: parseLine_eq pieces_parseLine_def validPair_def split: option.splits)

lemma parseLoop_eq: "parseLoop lines acc = acc @ List.map_filter pieces_parseLine lines"
  by (induction lines arbitrary: acc)
     (auto simp: pushIfValid_parseLine split: option.splits)

lemma pieces_parseLine_valid:
  "pieces_parseLine line = Some p \<Longrightarrow>
     left p \<noteq> [] \<and> right p \<noteq> [] \<and> length (left p) \<le> 50 \<and> length (right p) \<le> 50"
  by (auto simp: pieces_parseLine_def validPair_def split: option.splits if_splits)

lemma map_filter_valid:
  "list_all (\<lambda>p. left p \<noteq> [] \<and> right p \<noteq> [] \<and> length (left p) \<le> 50 \<and> length (right p) \<le> 50)
     (List.map_filter pieces_parseLine ls)"
  by (induction ls) (auto simp: pieces_parseLine_valid split: option.splits)

lemma list_all_take: "list_all P xs \<Longrightarrow> list_all P (take n xs)"
  by (auto simp: list_all_iff dest: in_set_takeD)

text \<open>Where the line holds its delimiter once only, the right side is all that follows it,
  as in the specification's reading.\<close>

lemma pieces_parseLine_single:
  "firstDelimiter line = Some d \<Longrightarrow> \<not> includesStr (snd (breakAt d line)) d \<Longrightarrow>
   pieces_parseLine line = spec_parseLine line"
  by (simp add: pieces_parseLine_def spec_parseLine_def breakAt_absent)

text \<open>
  C9 (as the code has it).  For every text the parser takes the lines of the text, trims
  them and drops the blank ones; on each line it takes the first of \<open>|\<close>, \<open>,\<close>,
  \<open>->\<close>, em dash (in this priority order) that the line contains; the left side is the
  trimmed text before the first occurrence of that delimiter and the right side the trimmed
  text between its first and second occurrence (all that follows when it occurs once); the
  pair is kept only when both sides are non-empty and at most 50 code units long, any other
  line is dropped; the result is cut to 250 pairs.  The text
  \<open>"Cold | Hot\nBad,Good\nfoo"\<close> gives the two pairs \<open>{Cold, Hot}\<close> and \<open>{Bad, Good}\<close>.
\<close>

theorem parsePromptLines_pieces:
  "parsePromptLines text =
     take 250 (List.map_filter pieces_parseLine
       (filter (\<lambda>l. l \<noteq> []) (map trim (splitLines text))))
   \<and> length (parsePromptLines text) \<le> 250
   \<and> list_all (\<lambda>p. left p \<noteq> [] \<and> right p \<noteq> [] \<and> length (left p) \<le> 50 \<and> length (right p) \<le> 50)
        (parsePromptLines text)
   \<and> parsePromptLines (js (''Cold | Hot'' @ [CHR 0x0A] @ ''Bad,Good'' @ [CHR 0x0A] @ ''foo''))
       = [\<lparr>left = js ''Cold'', right = js ''Hot''\<rparr>, \<lparr>left = js ''Bad'', right = js ''Good''\<rparr>]"
proof -
  have eq: "parsePromptLines text =
     take 250 (List.map_filter pieces_parseLine
       (filter (\<lambda>l. l \<noteq> []) (map trim (splitLines text))))"
    by (simp add: parsePromptLines_def parseLoop_eq)
  have len: "length (parsePromptLines text) \<le> 250"
    by (simp add: parsePromptLines_def)
  have valid: "list_all (\<lambda>p. left p \<noteq> [] \<and> right p \<noteq> [] \<and> length (left p) \<le> 50 \<and> length (right p) \<le> 50)
        (parsePromptLines text)"
    unfolding eq by (rule list_all_take) (rule map_filter_valid)
  have example: "parsePromptLines (js (''Cold | Hot'' @ [CHR 0x0A] @ ''Bad,Good'' @ [CHR 0x0A] @ ''foo''))
       = [\<lparr>left = js ''Cold'', right = js ''Hot''\<rparr>, \<lparr>left = js ''Bad'', right = js ''Good''\<rparr>]"
    by (simp add: js_def parsePromptLines_def parseLine_def splitPair_def PIPE_def COMMA_def
          ARROW_def EMDASH_def startsWith_def elemAt_def trim_def isWhiteSpace_def LF_def CR_def)
  from eq len valid example show ?thesis by blast
qed

text \<open>
  The line \<open>a|b|c\<close> holds its delimiter twice: the server keeps \<open>{a, b}\<close>, while
  cutting the line at the first occurrence gives \<open>{a, b|c}\<close>.
\<close>

theorem parsePromptLines_second_delimiter:
  "parsePromptLines (js ''a|b|c'') = [\<lparr>left = js ''a'', right = js ''b''\<rparr>]
   \<and> spec_parsePromptLines (js ''a|b|c'') = [\<lparr>left = js ''a'', right = js ''b|c''\<rparr>]
   \<and> parsePromptLines (js ''a|b|c'') \<noteq> spec_parsePromptLines (js ''a|b|c'')"
proof -
  have code: "parsePromptLines (js ''a|b|c'') = [\<lparr>left = js ''a'', right = js ''b''\<rparr>]"
    by (simp add: js_def parsePromptLines_def parseLine_def splitPair_def PIPE_def COMMA_def
          ARROW_def EMDASH_def startsWith_def elemAt_def trim_def isWhiteSpace_def LF_def CR_def)
  have spec: "spec_parsePromptLines (js ''a|b|c'') = [\<lparr>left = js ''a'', right = js ''b|c''\<rparr>]"
    by (simp add: spec_parsePromptLines_def spec_parseLine_def firstDelimiter_def validPair_def
          js_def PIPE_def COMMA_def ARROW_def EMDASH_def startsWith_def
          trim_def isWhiteSpace_def LF_def CR_def)
  have "js ''b'' \<noteq> js ''b|c''"
    by (simp add: js_def)
  with code spec show ?thesis by simp
qed

subsection \<open>Double arithmetic\<close>

declare bits.simps [simp del]

lemma bits_upper: "n < 2 ^ bits n"
proof (induction n rule: bits.induct)
  case (1 n)
  show ?case
  proof (cases "n = 0")
    case True
    then show ?thesis by (simp add: bits.simps)
  next
    case False
    with 1 have "n div 2 < 2 ^ bits (n div 2)" by simp
    then have "n < 2 * 2 ^ bits (n div 2)" by linarith
    with False show ?thesis by (simp add: bits.simps [of n])
  qed
qed

lemma bits_lower: "0 < n \<Longrightarrow> 2 ^ (bits n - 1) \<le> n"
proof (induction n rule: bits.induct)
  case (1 n)
  then have n: "n \<noteq> 0" by simp
  show ?case
  proof (cases "n div 2 = 0")
    case True
    then have "bits (n div 2) = 0" by (simp add: bits.simps)
    with n 1 show ?thesis by (simp add: bits.simps [of n])
  next
    case False
    with 1 n have ih: "2 ^ (bits (n div 2) - 1) \<le> n div 2" by simp
    from False have "bits (n div 2) \<noteq> 0" by (simp add: bits.simps [of "n div 2"])
    then have "(2::nat) ^ bits (n div 2) = 2 * 2 ^ (bits (n div 2) - 1)"
      by (cases "bits (n div 2)") auto
    with ih have "2 ^ bits (n div 2) \<le> n" by linarith
    with n show ?thesis by (simp add: bits.simps [of n])
  qed
qed

lemma recip_gt_one: "0 < x \<Longrightarrow> \<not> 1 \<le> x \<Longrightarrow> 1 < 1 / (x::rat)"
  by (simp add: less_divide_eq_1_pos)

lemma ceil_bits_upper:
  assumes "1 < (y::rat)"
  shows "y \<le> 2 ^ bits (nat (\<lceil>y\<rceil> - 1))"
proof -
  define c where "c = nat (\<lceil>y\<rceil> - 1)"
  from assms have "1 < \<lceil>y\<rceil>" by (simp add: less_ceiling_iff)
  then have c: "int c = \<lceil>y\<rceil> - 1" by (simp add: c_def)
  have "int c < int (2 ^ bits c)" using bits_upper [of c] by (simp only: of_nat_less_iff)
  with c have "\<lceil>y\<rceil> \<le> int (2 ^ bits c)" by linarith
  then have "(of_int \<lceil>y\<rceil> :: rat) \<le> of_int (int (2 ^ bits c))" by (simp only: of_int_le_iff)
  moreover have "y \<le> of_int \<lceil>y\<rceil>" by (rule le_of_int_ceiling)
  ultimately have "y \<le> of_int (int (2 ^ bits c))" by (rule order_trans [rotated])
  then show ?thesis by (simp add: c_def)
qed

lemma ceil_bits_lower:
  assumes "1 < (y::rat)"
  shows "2 ^ (bits (nat (\<lceil>y\<rceil> - 1)) - 1) < y"
proof -
  define c where "c = nat (\<lceil>y\<rceil> - 1)"
  from assms have "1 < \<lceil>y\<rceil>" by (simp add: less_ceiling_iff)
  then have c: "int c = \<lceil>y\<rceil> - 1" and pos: "0 < c" by (simp_all add: c_def)
  have "int (2 ^ (bits c - 1)) \<le> int c"
    using bits_lower [OF pos] by (simp only: of_nat_le_iff)
  then have "(of_int (int (2 ^ (bits c - 1))) :: rat) \<le> of_int (int c)"
    by (simp only: of_int_le_iff)
  moreover have "(of_int (int c) :: rat) < y"
    unfolding c using ceiling_correct [of y] by simp
  ultimately have "of_int (int (2 ^ (bits c - 1))) < y" by (rule le_less_trans)
  then show ?thesis by (simp add: c_def)
qed

lemma recip_le: "0 < (x::rat) \<Longrightarrow> 0 < P \<Longrightarrow> 1 / x \<le> P \<Longrightarrow> 1 / P \<le> x"
  by (simp add: pos_divide_le_eq mult.commute)

lemma recip_less: "0 < (x::rat) \<Longrightarrow> 0 < P \<Longrightarrow> P < 1 / x \<Longrightarrow> x < 1 / P"
  by (simp add: pos_less_divide_eq mult.commute)

lemma ilog2_small:
  "\<not> 1 \<le> x \<Longrightarrow> (2::rat) powi ilog2 x = 1 / 2 ^ bits (nat (\<lceil>1 / x\<rceil> - 1))"
  by (simp add: ilog2_def power_int_minus inverse_eq_divide)

lemma ilog2_lower:
  assumes "0 < x"
  shows "2 powi ilog2 x \<le> x"
proof (cases "1 \<le> x")
  case True
  define m where "m = nat \<lfloor>x\<rfloor>"
  from True have m: "0 < m" and mx: "int m = \<lfloor>x\<rfloor>" by (simp_all add: m_def)
  from m have "bits m \<noteq> 0" by (simp add: bits.simps [of m])
  then obtain b where b: "bits m = Suc b" by (cases "bits m") auto
  from True have "ilog2 x = int b" by (simp add: ilog2_def m_def [symmetric] b)
  then have "(2::rat) powi ilog2 x = 2 ^ b" by simp
  also have "\<dots> = of_int (int (2 ^ b))" by simp
  also have "\<dots> \<le> of_int (int m)"
    using bits_lower [OF m] by (simp only: of_int_le_iff of_nat_le_iff b diff_Suc_1)
  also have "\<dots> \<le> x" unfolding mx by (rule of_int_floor_le)
  finally show ?thesis .
next
  case False
  with assms have big: "1 < 1 / x" by (rule recip_gt_one)
  have "1 / 2 ^ bits (nat (\<lceil>1 / x\<rceil> - 1)) \<le> x"
    using assms _ ceil_bits_upper [OF big] by (rule recip_le) simp
  then show ?thesis by (simp only: ilog2_small [OF False])
qed

lemma ilog2_upper:
  assumes "0 < x"
  shows "x < 2 powi (ilog2 x + 1)"
proof (cases "1 \<le> x")
  case True
  define m where "m = nat \<lfloor>x\<rfloor>"
  from True have mx: "int m = \<lfloor>x\<rfloor>" by (simp add: m_def)
  have "int m < int (2 ^ bits m)" using bits_upper [of m] by (simp only: of_nat_less_iff)
  then have "int m + 1 \<le> int (2 ^ bits m)" by linarith
  then have "(of_int (int m + 1) :: rat) \<le> of_int (int (2 ^ bits m))" by (simp only: of_int_le_iff)
  moreover have "x < of_int (int m + 1)" unfolding mx by linarith
  ultimately have "x < of_int (int (2 ^ bits m))" by (rule less_le_trans [rotated])
  moreover from True have "(2::rat) powi (ilog2 x + 1) = of_int (int (2 ^ bits m))"
    by (simp add: ilog2_def m_def)
  ultimately show ?thesis by simp
next
  case False
  with assms have big: "1 < 1 / x" by (rule recip_gt_one)
  define c where "c = nat (\<lceil>1 / x\<rceil> - 1)"
  from big have "1 < \<lceil>1 / x\<rceil>" by (simp add: less_ceiling_iff)
  then have "0 < c" by (simp add: c_def)
  then have "bits c \<noteq> 0" by (simp add: bits.simps [of c])
  then obtain b where b: "bits c = Suc b" by (cases "bits c") auto
  have "2 ^ b < 1 / x"
    using ceil_bits_lower [OF big] by (simp only: c_def [symmetric] b diff_Suc_1)
  have "x < 1 / 2 ^ b"
    using assms _ \<open>2 ^ b < 1 / x\<close> by (rule recip_less) simp
  moreover from False have "ilog2 x + 1 = - int b"
    by (simp add: ilog2_def c_def [symmetric] b)
  then have "(2::rat) powi (ilog2 x + 1) = 1 / 2 ^ b"
    by (simp add: power_int_minus inverse_eq_divide)
  ultimately show ?thesis by simp
qed

lemma ilog2_less:
  assumes "0 < x" and "x < 2 powi j"
  shows "ilog2 x < j"
proof (rule ccontr)
  assume "\<not> ilog2 x < j"
  then have "j \<le> ilog2 x" by simp
  then have "(2::rat) powi j \<le> 2 powi ilog2 x"
    by (intro power_int_increasing) simp_all
  with ilog2_lower [OF assms(1)] assms(2) show False by simp
qed

lemma ilog2_eqI:
  assumes "2 powi j \<le> x" and "x < 2 powi (j + 1)"
  shows "ilog2 x = j"
proof -
  have "(0::rat) < 2 powi j" by simp
  from this assms(1) have pos: "0 < x" by (rule less_le_trans)
  have "ilog2 x < j + 1" using pos assms(2) by (rule ilog2_less)
  moreover have "j \<le> ilog2 x"
  proof (rule ccontr)
    assume "\<not> j \<le> ilog2 x"
    then have "ilog2 x + 1 \<le> j" by simp
    then have "(2::rat) powi (ilog2 x + 1) \<le> 2 powi j"
      by (intro power_int_increasing) simp_all
    with ilog2_upper [OF pos] assms(1) show False by simp
  qed
  ultimately show ?thesis by simp
qed

lemma roundEven_of_int: "roundEven (of_int k) = k"
  by (simp add: roundEven_def)

lemma roundEven_err: "\<bar>of_int (roundEven y) - y\<bar> \<le> 1 / 2"
proof -
  have "of_int \<lfloor>y\<rfloor> \<le> y" "y < of_int \<lfloor>y\<rfloor> + 1" by linarith+
  then show ?thesis
    by (auto simp: roundEven_def Let_def abs_le_iff)
qed

lemma fl_err: "\<bar>fl x - x\<bar> \<le> 2 powi ulpExp x / 2"
proof (cases "x = 0")
  case True
  then show ?thesis by (simp add: fl_def)
next
  case False
  let ?u = "(2::rat) powi ulpExp x"
  have u: "0 < ?u" by simp
  have "fl x - x = (of_int (roundEven (x / ?u)) - x / ?u) * ?u"
    using False u by (simp add: fl_def left_diff_distrib)
  then have "\<bar>fl x - x\<bar> = \<bar>of_int (roundEven (x / ?u)) - x / ?u\<bar> * ?u"
    using u by (simp add: abs_mult)
  also have "\<dots> \<le> 1 / 2 * ?u"
    using roundEven_err [of "x / ?u"] u by (intro mult_right_mono) simp_all
  finally show ?thesis by simp
qed

lemma fl_dyadic:
  assumes "j \<le> 1074" and "\<bar>of_int m / 2 ^ j :: rat\<bar> < 2 powi (53 - int j)"
  shows "fl (of_int m / 2 ^ j) = of_int m / 2 ^ j"
proof (cases "m = 0")
  case True
  then show ?thesis by (simp add: fl_def)
next
  case False
  define x :: rat where "x = of_int m / 2 ^ j"
  define e where "e = ulpExp x"
  from False have nz: "x \<noteq> 0" by (simp add: x_def)
  then have "0 < \<bar>x\<bar>" by simp
  moreover have "\<bar>x\<bar> < 2 powi (53 - int j)" using assms(2) by (simp add: x_def)
  ultimately have "ilog2 \<bar>x\<bar> < 53 - int j" by (rule ilog2_less)
  with assms(1) have e: "e \<le> - int j" by (simp add: e_def ulpExp_def)
  define k where "k = nat (- int j - e)"
  from e have k: "- int j = int k + e" by (simp add: k_def)
  have u: "(2::rat) powi e \<noteq> 0" by simp
  have "x = of_int m * 2 powi (- int j)"
    by (simp add: x_def power_int_minus divide_inverse)
  also have "\<dots> = of_int m * 2 powi (int k + e)" by (simp only: k)
  also have "\<dots> = of_int (m * 2 ^ k) * 2 powi e" by (simp add: power_int_add)
  finally have x: "x = of_int (m * 2 ^ k) * 2 powi e" .
  have "x / 2 powi e = of_int (m * 2 ^ k)"
    by (subst x) (simp only: nonzero_mult_div_cancel_right [OF u])
  then have "roundEven (x / 2 powi e) = m * 2 ^ k"
    by (simp only: roundEven_of_int)
  then have "fl x = of_int (m * 2 ^ k) * 2 powi e"
    using nz by (simp add: fl_def e_def)
  with x have "fl x = x" by simp
  then show ?thesis by (simp only: x_def)
qed

lemma fl_int:
  assumes "\<bar>of_int m :: rat\<bar> < 2 ^ 53"
  shows "fl (of_int m) = of_int m"
proof -
  have p: "(2::rat) powi (53 - int 0) = 2 ^ 53" by (simp only: of_nat_0 diff_zero power_int_numeral)
  have q: "(of_int m :: rat) / 2 ^ 0 = of_int m" by (simp only: power_0 div_by_1)
  have "fl (of_int m / 2 ^ 0) = of_int m / 2 ^ 0"
    by (rule fl_dyadic) (simp, simp only: p q assms)
  then show ?thesis by (simp only: q)
qed


lemma fl_zero: "fl 0 = 0"
  by (simp add: fl_def)

lemma fl_numeral: "numeral n < (2::rat) ^ 53 \<Longrightarrow> fl (numeral n) = numeral n"
  using fl_int [of "numeral n"] by simp

lemma fl_neg_numeral: "numeral n < (2::rat) ^ 53 \<Longrightarrow> fl (- numeral n) = - numeral n"
  using fl_int [of "- numeral n"] by simp

lemma fl_half:
  assumes "\<bar>of_int m :: rat\<bar> < 2 ^ 53"
  shows "fl (of_int m / 2) = of_int m / 2"
proof -
  have p: "(2::rat) powi (53 - int 1) = 2 ^ 52" by (simp add: power_int_def)
  from assms have "\<bar>of_int m :: rat\<bar> / 2 < 2 ^ 52" by simp
  then have "\<bar>(of_int m :: rat) / 2 ^ 1\<bar> < 2 powi (53 - int 1)"
    by (simp only: p power_one_right abs_divide abs_numeral)
  then have "fl (of_int m / 2 ^ 1) = of_int m / 2 ^ 1"
    by (intro fl_dyadic) simp_all
  then show ?thesis by (simp only: power_one_right)
qed

lemma fl_numeral_half: "numeral n < (2::rat) ^ 53 \<Longrightarrow> fl (numeral n / 2) = numeral n / 2"
  using fl_half [of "numeral n"] by simp

lemma fl_near:
  assumes "0 < x" and "x < 2 ^ 8"
  shows "\<bar>fl x - x\<bar> \<le> 1 / 2 ^ 46"
proof -
  have "(2::rat) powi 8 = 2 ^ 8" by (simp only: power_int_numeral)
  with assms(2) have "x < 2 powi 8" by simp
  with assms(1) have "ilog2 x < 8" by (rule ilog2_less)
  with assms(1) have "ulpExp x \<le> - 45" by (simp add: ulpExp_def)
  then have "(2::rat) powi ulpExp x \<le> 2 powi (- 45)"
    by (intro power_int_increasing) simp_all
  also have "\<dots> = 1 / 2 ^ 45" by (simp add: power_int_minus inverse_eq_divide)
  finally have "(2::rat) powi ulpExp x / 2 \<le> 1 / 2 ^ 45 / 2" by (rule divide_right_mono) simp
  with fl_err [of x] have "\<bar>fl x - x\<bar> \<le> 1 / 2 ^ 45 / 2" by (rule order_trans)
  then show ?thesis by simp
qed

lemma half_grid_gap:
  fixes s k :: int and n :: nat
  assumes n: "0 < n" and ne: "(of_int s :: rat) / of_nat n \<noteq> of_int k / 2"
  shows "1 / (2 * of_nat n) \<le> \<bar>(of_int s :: rat) / of_nat n - of_int k / 2\<bar>"
proof -
  define a where "a = 2 * s - k * int n"
  have eq: "(of_int s :: rat) / of_nat n - of_int k / 2 = of_int a / (2 * of_nat n)"
    using n by (simp add: a_def field_simps)
  with ne have "a \<noteq> 0" by auto
  then have "1 \<le> \<bar>a\<bar>" by linarith
  then have "(1::rat) \<le> of_int \<bar>a\<bar>" by (simp only: of_int_1_le_iff)
  then have "(1::rat) / (2 * of_nat n) \<le> of_int \<bar>a\<bar> / (2 * of_nat n)"
    by (rule divide_right_mono) simp
  also have "\<dots> = \<bar>of_int a / (2 * of_nat n) :: rat\<bar>" by simp
  finally show ?thesis by (simp only: eq)
qed

lemma floor_fl_quotient:
  fixes s :: int and n :: nat
  assumes n: "0 < n" and small: "n < 2 ^ 40" and s0: "0 \<le> s" and s1: "s \<le> 128 * int n"
  shows "\<lfloor>fl (of_int s / of_nat n) + 1 / 2\<rfloor> = \<lfloor>(of_int s :: rat) / of_nat n + 1 / 2\<rfloor>"
proof -
  define x :: rat where "x = of_int s / of_nat n"
  define q where "q = \<lfloor>x + 1 / 2\<rfloor>"
  have lo: "of_int q \<le> x + 1 / 2" and hi: "x + 1 / 2 < of_int q + 1"
    unfolding q_def by linarith+
  have x0: "0 \<le> x" using s0 by (simp add: x_def)
  have "(128::rat) * of_nat n = of_int (128 * int n)" by simp
  with s1 have "(of_int s :: rat) \<le> 128 * of_nat n" by (simp only: of_int_le_iff)
  with n have "x \<le> 128" by (simp add: x_def pos_divide_le_eq)
  then have x8: "x < 2 ^ 8" by simp
  have "fl x = x \<or> (of_int q \<le> fl x + 1 / 2 \<and> fl x + 1 / 2 < of_int q + 1)"
  proof (cases "x = 0 \<or> x = of_int (2 * q - 1) / 2")
    case True
    then show ?thesis
    proof
      assume "x = 0"
      then show ?thesis by (simp add: fl_zero)
    next
      assume h: "x = of_int (2 * q - 1) / 2"
      from x0 x8 h have "\<bar>of_int (2 * q - 1) :: rat\<bar> < 2 ^ 53" by simp
      then have "fl (of_int (2 * q - 1) / 2) = of_int (2 * q - 1) / 2" by (rule fl_half)
      then have "fl x = x" by (simp only: h [symmetric])
      then show ?thesis by (rule disjI1)
    qed
  next
    case False
    then have pos: "0 < x" and ne1: "x \<noteq> of_int (2 * q - 1) / 2" using x0 by simp_all
    from hi have ne2: "x \<noteq> of_int (2 * q + 1) / 2" by auto
    have g1: "1 / (2 * of_nat n) \<le> \<bar>x - of_int (2 * q - 1) / 2\<bar>"
      unfolding x_def using n ne1 [unfolded x_def] by (rule half_grid_gap)
    have g2: "1 / (2 * of_nat n) \<le> \<bar>x - of_int (2 * q + 1) / 2\<bar>"
      unfolding x_def using n ne2 [unfolded x_def] by (rule half_grid_gap)
    from lo have "0 \<le> x - of_int (2 * q - 1) / 2" by simp
    with g1 have d1: "1 / (2 * of_nat n) \<le> x - of_int (2 * q - 1) / 2" by simp
    from hi have "x - of_int (2 * q + 1) / 2 \<le> 0" by simp
    with g2 have d2: "1 / (2 * of_nat n) \<le> of_int (2 * q + 1) / 2 - x" by simp
    have "(of_nat n :: rat) < of_nat (2 ^ 40)" using small by (simp only: of_nat_less_iff)
    then have "(2::rat) * of_nat n < 2 ^ 46" by simp
    moreover have "(0::rat) < 2 * of_nat n" using n by simp
    ultimately have "(1::rat) / 2 ^ 46 < 1 / (2 * of_nat n)"
      by (intro divide_strict_left_mono) simp_all
    with fl_near [OF pos x8] have near: "\<bar>fl x - x\<bar> < 1 / (2 * of_nat n)" by simp
    from near d1 have "of_int (2 * q - 1) / 2 < fl x" by linarith
    moreover from near d2 have "fl x < of_int (2 * q + 1) / 2" by linarith
    ultimately show ?thesis by simp
  qed
  then have "of_int q \<le> fl x + 1 / 2 \<and> fl x + 1 / 2 < of_int q + 1"
    using lo hi by auto
  then have "\<lfloor>fl x + 1 / 2\<rfloor> = q" by (intro floor_unique) simp_all
  then show ?thesis by (simp only: q_def x_def)
qed

lemma foldl_fl_ints:
  "\<forall>v\<in>set vs. v \<in> \<int> \<and> 0 \<le> v \<and> v \<le> 100 \<Longrightarrow> 0 \<le> a \<Longrightarrow> a + 100 * int (length vs) < 2 ^ 53 \<Longrightarrow>
   \<exists>S. foldl (\<lambda>x y. fl (x + y)) (of_int a) vs = of_int S
      \<and> (of_int S :: rat) = of_int a + sum_list vs
      \<and> a \<le> S \<and> S \<le> a + 100 * int (length vs)"
proof (induction vs arbitrary: a)
  case Nil
  then show ?case by simp
next
  case (Cons v vs)
  from Cons.prems(1) obtain k where k: "v = of_int k" by (auto elim: Ints_cases)
  with Cons.prems(1) have k0: "0 \<le> k" and k1: "k \<le> 100" by simp_all
  from Cons.prems(2,3) k0 k1 have "\<bar>a + k\<bar> < 2 ^ 53" by simp
  then have "\<bar>of_int (a + k) :: rat\<bar> < 2 ^ 53"
    by (simp only: of_int_abs [symmetric] of_int_less_numeral_power_cancel_iff)
  then have step: "fl (of_int a + v) = of_int (a + k)"
    unfolding k of_int_add [symmetric] by (rule fl_int)
  have "\<forall>v\<in>set vs. v \<in> \<int> \<and> 0 \<le> v \<and> v \<le> 100" using Cons.prems(1) by simp
  moreover have "0 \<le> a + k" using Cons.prems(2) k0 by simp
  moreover have "a + k + 100 * int (length vs) < 2 ^ 53" using Cons.prems(3) k1 by simp
  ultimately obtain S where S: "foldl (\<lambda>x y. fl (x + y)) (of_int (a + k)) vs = of_int S"
    "(of_int S :: rat) = of_int (a + k) + sum_list vs" "a + k \<le> S"
    "S \<le> a + k + 100 * int (length vs)"
    using Cons.IH [of "a + k"] by blast
  have "foldl (\<lambda>x y. fl (x + y)) (of_int a) (v # vs)
          = foldl (\<lambda>x y. fl (x + y)) (fl (of_int a + v)) vs" by simp
  also have "\<dots> = of_int S" by (simp only: step S(1))
  finally have r: "foldl (\<lambda>x y. fl (x + y)) (of_int a) (v # vs) = of_int S" .
  have e: "(of_int S :: rat) = of_int a + sum_list (v # vs)" by (simp add: S(2) k)
  have b: "a \<le> S" "S \<le> a + 100 * int (length (v # vs))" using S(3,4) k0 k1 by simp_all
  from r e b show ?case by blast
qed

lemma roundEven_eqI:
  assumes "\<bar>y - of_int k\<bar> < 1 / 2"
  shows "roundEven y = k"
proof (cases "of_int k \<le> y")
  case True
  with assms have "\<lfloor>y\<rfloor> = k" by (intro floor_unique) simp_all
  with assms True show ?thesis by (simp add: roundEven_def)
next
  case False
  with assms have "\<lfloor>y\<rfloor> = k - 1" by (intro floor_unique) simp_all
  with assms False show ?thesis by (simp add: roundEven_def)
qed

lemma roundEven_tie: "roundEven (of_int k + 1 / 2) = (if even k then k else k + 1)"
proof -
  have "\<lfloor>(of_int k :: rat) + 1 / 2\<rfloor> = k" by (intro floor_unique) simp_all
  then show ?thesis by (simp add: roundEven_def)
qed

lemma fl_eval:
  assumes "2 powi j \<le> \<bar>x\<bar>" and "\<bar>x\<bar> < 2 powi (j + 1)" and "- 1022 \<le> j"
  shows "fl x = of_int (roundEven (x / 2 powi (j - 52))) * 2 powi (j - 52)"
proof -
  from assms(1,2) have "ilog2 \<bar>x\<bar> = j" by (rule ilog2_eqI)
  with assms(3) have u: "ulpExp x = j - 52" by (simp add: ulpExp_def)
  have "(0::rat) < 2 powi j" by simp
  then have "0 < \<bar>x\<bar>" using assms(1) by (rule less_le_trans)
  then have "x \<noteq> 0" by simp
  with u show ?thesis by (simp add: fl_def)
qed


text \<open>Two roundings: \<open>(1 - 2^(-53)) - 11\<close> is rounded to \<open>-10\<close>, and
  \<open>(1 - 2^(-53)) + 2^(-54)\<close>, half way between two doubles, to 1.\<close>

lemma seam_diff: "fl (9007199254740991 / 9007199254740992 - 11) = - 10"
proof -
  let ?x = "- (90071992547409921 / 9007199254740992) :: rat"
  have "fl ?x = of_int (roundEven (?x / 2 powi (3 - 52))) * 2 powi (3 - 52)"
    by (rule fl_eval) (simp_all add: power_int_def)
  moreover have p: "(2::rat) powi (3 - 52) = 1 / 2 ^ 49"
    by (simp add: power_int_minus inverse_eq_divide)
  moreover have "?x / (1 / 2 ^ 49) = - (90071992547409921 / 16)"
    by simp
  moreover have "roundEven (- (90071992547409921 / 16)) = - 5629499534213120"
    by (rule roundEven_eqI) simp
  ultimately have "fl ?x = - 10" by simp
  then show ?thesis by simp
qed

lemma tie_sum:
  "fl (fl (0 + 9007199254740991 / 9007199254740992) + 1 / 18014398509481984) = 1"
proof -
  have a: "fl (9007199254740991 / 9007199254740992) = 9007199254740991 / 9007199254740992"
    using fl_dyadic [of 53 9007199254740991] by (simp add: power_int_def)
  let ?x = "18014398509481983 / 18014398509481984 :: rat"
  have "fl ?x = of_int (roundEven (?x / 2 powi (- 1 - 52))) * 2 powi (- 1 - 52)"
    by (rule fl_eval) (simp_all add: power_int_def)
  moreover have p: "(2::rat) powi (- 1 - 52) = 1 / 2 ^ 53"
    by (simp add: power_int_minus inverse_eq_divide)
  moreover have "?x / (1 / 2 ^ 53) = of_int 9007199254740991 + 1 / 2"
    by simp
  moreover have "roundEven (of_int 9007199254740991 + 1 / 2) = 9007199254740992"
    by (simp only: roundEven_tie) simp
  ultimately have fx: "fl ?x = 1" by simp
  have sum: "9007199254740991 / 9007199254740992 + 1 / 18014398509481984 = ?x" by simp
  show ?thesis by (simp only: add_0_left a sum fx)
qed


subsection \<open>The reveal\<close>

lemma Math_round_round: "Math_round x = round x"
  by (simp add: Math_round_def round_def)

lemma scoreFromDistance_tier: "scoreFromDistance d = spec_tier d"
  by (simp add: scoreFromDistance_def spec_tier_def)

lemma spec_tier_range: "0 \<le> spec_tier d \<and> spec_tier d \<le> 4"
  by (simp add: spec_tier_def)

lemma doubleDist_exact:
  assumes "binary46 gv" and "\<bar>gv - of_int t\<bar> < 128"
  shows "doubleDist gv t = \<bar>gv - of_int t\<bar>"
proof -
  define k where "k = \<lfloor>gv * 2 ^ 46\<rfloor>"
  from assms(1) have "of_int k = gv * 2 ^ 46" unfolding binary46_def k_def .
  then have gv: "gv = of_int k / 2 ^ 46" by (simp add: eq_divide_eq)
  have "(of_int t :: rat) = of_int (t * 2 ^ 46) / 2 ^ 46" by simp
  then have eq: "gv - of_int t = of_int (k - t * 2 ^ 46) / 2 ^ 46"
    by (simp only: gv diff_divide_distrib [symmetric] of_int_diff)
  have p: "(2::rat) powi (53 - int 46) = 128" by simp
  have "\<bar>of_int (k - t * 2 ^ 46) / 2 ^ 46 :: rat\<bar> < 2 powi (53 - int 46)"
    using assms(2) by (simp only: eq p)
  then have "fl (of_int (k - t * 2 ^ 46) / 2 ^ 46) = of_int (k - t * 2 ^ 46) / 2 ^ 46"
    by (intro fl_dyadic) simp_all
  then have "fl (gv - of_int t) = gv - of_int t" by (simp only: eq)
  then show ?thesis by (simp only: doubleDist_def)
qed

lemma loop_perPlayer:
  "fst (revealLoop g t ps (pp, sc, sp, cn)) =
     (\<lambda>i. if i \<in> pid ` set ps then Some (entryOf g t i) else pp i)"
proof (induction ps arbitrary: pp sc sp cn)
  case Nil
  then show ?case by simp
next
  case (Cons p ps)
  show ?case
    by (cases "mapGet g (pid p)")
       (auto simp: Cons.IH entryOf_def fun_eq_iff Let_def scoreFromDistance_tier doubleDist_def dsub_def)
qed

lemma loop_scores:
  "distinct (map pid ps) \<Longrightarrow>
   fst (snd (revealLoop g t ps (pp, sc, sp, cn))) =
     (\<lambda>i. if i \<in> pid ` set ps then Some (scoreOf sc i + tierOf g t i) else sc i)"
proof (induction ps arbitrary: pp sc sp cn)
  case Nil
  then show ?case by simp
next
  case (Cons p ps)
  then have d: "distinct (map pid ps)" and n: "pid p \<notin> pid ` set ps"
    by auto
  show ?case
    using n
    by (cases "mapGet g (pid p)")
       (auto simp: Cons.IH [OF d] tierOf_def scoreOf_def fun_eq_iff Let_def
          scoreFromDistance_tier doubleDist_def dsub_def)
qed

lemma loop_scores_other:
  "i \<notin> pid ` set ps \<Longrightarrow> fst (snd (revealLoop g t ps (pp, sc, sp, cn))) i = sc i"
proof (induction ps arbitrary: pp sc sp cn)
  case Nil
  then show ?case by simp
next
  case (Cons p ps)
  then show ?case
    by (cases "mapGet g (pid p)") (auto simp: Let_def)
qed

lemma loop_sum:
  "fst (snd (snd (revealLoop g t ps (pp, sc, sp, cn)))) =
     sp + sum_list (map (\<lambda>p. tierOf g t (pid p)) ps)"
proof (induction ps arbitrary: pp sc sp cn)
  case Nil
  then show ?case by simp
next
  case (Cons p ps)
  show ?case
    by (cases "mapGet g (pid p)")
       (auto simp: Cons.IH tierOf_def Let_def scoreFromDistance_tier doubleDist_def dsub_def)
qed

lemma loop_count:
  "snd (snd (snd (revealLoop g t ps (pp, sc, sp, cn)))) =
     cn + length (filter (\<lambda>p. mapGet g (pid p) \<noteq> None) ps)"
proof (induction ps arbitrary: pp sc sp cn)
  case Nil
  then show ?case by simp
next
  case (Cons p ps)
  show ?case
    by (cases "mapGet g (pid p)") (auto simp: Cons.IH Let_def)
qed

lemma sum_submitted:
  "sum_list (map (\<lambda>p. tierOf g t (pid p)) (filter (\<lambda>p. mapGet g (pid p) \<noteq> None) ps))
     = sum_list (map (\<lambda>p. tierOf g t (pid p)) ps)"
  by (induction ps) (auto simp: tierOf_def)

lemma loopOf_sum: "fst (snd (snd (loopOf r))) = sum_list (map (roundPoints r) (guessersOf r))"
  by (simp add: loopOf_def loop_sum roundPoints_def [abs_def])

lemma loopOf_count: "snd (snd (snd (loopOf r))) = length (submitted r)"
  by (simp add: loopOf_def loop_count submitted_def)

lemma loopOf_perPlayer:
  "fst (loopOf r) =
     (\<lambda>i. if i \<in> pid ` set (guessersOf r) then Some (entryOf (guesses r) (targetNum r) i) else None)"
  by (simp add: loopOf_def loop_perPlayer)

lemma sum_submitted_room:
  "sum_list (map (roundPoints r) (submitted r)) = sum_list (map (roundPoints r) (guessersOf r))"
  unfolding submitted_def roundPoints_def by (rule sum_submitted)

lemma roundPoints_range: "0 \<le> roundPoints r p \<and> roundPoints r p \<le> 4"
  using spec_tier_range by (simp add: roundPoints_def tierOf_def split: option.split)

lemma sum_points_range:
  "0 \<le> sum_list (map (roundPoints r) ps)
   \<and> sum_list (map (roundPoints r) ps) \<le> 4 * int (length ps)"
proof (induction ps)
  case Nil
  then show ?case by simp
next
  case (Cons p ps)
  with roundPoints_range [of r p] show ?case by simp
qed

lemma map_filter_filter_map:
  "List.map_filter f (filter P (map h xs)) =
     List.map_filter (\<lambda>x. if P (h x) then f (h x) else None) xs"
  by (induction xs) (auto simp: List.map_filter_simps split: option.splits)

lemma computeFinalGuess_eq:
  "computeFinalGuess r
     = (if lockedGuesses r = [] then 50 else round (doubleMean (lockedGuesses r)))"
  by (simp add: computeFinalGuess_def lockedGuesses_def doubleMean_def Let_def
        map_filter_filter_map setHas_def Math_round_round dadd_def [abs_def] ddiv_def)

lemma doubleMean_ints:
  assumes "\<forall>v\<in>set vs. v \<in> \<int> \<and> 0 \<le> v \<and> v \<le> 100" and "vs \<noteq> []" and "length vs < 2 ^ 40"
  shows "round (doubleMean vs) = round (sum_list vs / of_nat (length vs))"
proof -
  from assms(3) have "int (length vs) < 2 ^ 40" by (simp only: of_nat_less_numeral_power_cancel_iff)
  then have "(0::int) + 100 * int (length vs) < 2 ^ 53" by simp
  with assms(1) have
    "\<exists>S. foldl (\<lambda>x y. fl (x + y)) (of_int 0) vs = of_int S
        \<and> (of_int S :: rat) = of_int 0 + sum_list vs
        \<and> 0 \<le> S \<and> S \<le> 0 + 100 * int (length vs)"
    by (intro foldl_fl_ints) simp_all
  then obtain S where S: "foldl (\<lambda>x y. fl (x + y)) 0 vs = of_int S"
    "(of_int S :: rat) = sum_list vs" "0 \<le> S" "S \<le> 100 * int (length vs)"
    by auto
  from assms(2) have n: "0 < length vs" by simp
  from S(4) have "S \<le> 128 * int (length vs)" by simp
  with n assms(3) S(3) have
    "\<lfloor>fl (of_int S / of_nat (length vs)) + 1 / 2\<rfloor> = \<lfloor>(of_int S :: rat) / of_nat (length vs) + 1 / 2\<rfloor>"
    by (rule floor_fl_quotient)
  then show ?thesis
    by (simp only: doubleMean_def round_def S(1) S(2) [symmetric])
qed

lemma computeFinalGuess_exact:
  assumes "\<forall>v\<in>set (lockedGuesses r). v \<in> \<int> \<and> 0 \<le> v \<and> v \<le> 100"
    and "length (lockedGuesses r) < 2 ^ 40"
  shows "computeFinalGuess r = spec_finalGuess r"
proof (cases "lockedGuesses r = []")
  case True
  then show ?thesis by (simp add: computeFinalGuess_eq spec_finalGuess_def)
next
  case False
  with assms have "round (doubleMean (lockedGuesses r))
      = round (sum_list (lockedGuesses r) / of_nat (length (lockedGuesses r)))"
    by (intro doubleMean_ints)
  with False show ?thesis by (simp add: computeFinalGuess_eq spec_finalGuess_def)
qed

lemma computeFinalGuess_phase: "computeFinalGuess (r\<lparr>phase := ph\<rparr>) = computeFinalGuess r"
  by (simp add: computeFinalGuess_def guessersOf_def)

lemma cluePtsOf_eq:
  assumes "length (submitted r) < 2 ^ 40"
  shows "cluePtsOf r = spec_cluePts r"
proof (cases "submitted r = []")
  case True
  then show ?thesis by (simp add: cluePtsOf_def spec_cluePts_def loopOf_count)
next
  case False
  define S where "S = sum_list (map (roundPoints r) (submitted r))"
  define n where "n = length (submitted r)"
  from False have n: "0 < n" by (simp add: n_def)
  from sum_points_range [of r "submitted r"] have S0: "0 \<le> S" and "S \<le> 4 * int n"
    by (simp_all add: S_def n_def)
  then have S1: "S \<le> 128 * int n" by simp
  from assms have "n < 2 ^ 40" by (simp only: n_def)
  with n have
    "\<lfloor>fl (of_int S / of_nat n) + 1 / 2\<rfloor> = \<lfloor>(of_int S :: rat) / of_nat n + 1 / 2\<rfloor>"
    using S0 S1 by (rule floor_fl_quotient)
  then have "Math_round (ddiv (of_int S) (of_nat n)) = round (of_int S / (of_nat n :: rat))"
    by (simp only: Math_round_def round_def ddiv_def)
  moreover have "cluePtsOf r = Math_round (ddiv (of_int S) (of_nat n))"
    using n by (simp add: cluePtsOf_def loopOf_sum loopOf_count sum_submitted_room S_def n_def)
  moreover have "spec_cluePts r = round (of_int S / (of_nat n :: rat))"
    using False by (simp add: spec_cluePts_def S_def n_def)
  ultimately show ?thesis by simp
qed

lemma revealRound_room:
  "fst (revealRound r) =
     r\<lparr>phase := REVEAL,
       finalGuess := Some (computeFinalGuess r),
       playerScores :=
         (case cluegiverId r of
            Some c \<Rightarrow> (if c \<noteq> [] then (fst (snd (loopOf r)))(c \<mapsto> scoreOf (fst (snd (loopOf r))) c + cluePtsOf r)
                       else fst (snd (loopOf r)))
          | None \<Rightarrow> fst (snd (loopOf r))),
       score := score r + fst (snd (snd (loopOf r))),
       lastReveal := Some \<lparr>rv_target = target r,
                            rv_finalGuess = computeFinalGuess r,
                            rv_dist = \<bar>computeFinalGuess r - targetNum r\<bar>,
                            rv_delta = scoreFromDistance (of_int \<bar>computeFinalGuess r - targetNum r\<bar>),
                            rv_total = score r + fst (snd (snd (loopOf r))),
                            rv_perPlayer = fst (loopOf r),
                            rv_cluePts = cluePtsOf r\<rparr>\<rparr>"
  by (cases "cluegiverId r")
     (simp_all add: revealRound_def Let_def case_prod_unfold computeFinalGuess_phase
        loopOf_def cluePtsOf_def targetNum_def guessersOf_def)

lemma revealRound_outs: "snd (revealRound r) = broadcastRoom (fst (revealRound r))"
  by (simp add: revealRound_def Let_def case_prod_unfold)

lemma guessers_distinct: "distinct (map pid (players r)) \<Longrightarrow> distinct (map pid (guessersOf r))"
  by (simp add: guessersOf_def distinct_map_filter)

lemma cluegiver_not_guesser: "cluegiverId r = Some c \<Longrightarrow> c \<notin> pid ` set (guessersOf r)"
  by (auto simp: guessersOf_def)

lemma loopOf_scores:
  "distinct (map pid (players r)) \<Longrightarrow>
   fst (snd (loopOf r)) =
     (\<lambda>i. if i \<in> pid ` set (guessersOf r)
          then Some (scoreOf (playerScores r) i + tierOf (guesses r) (targetNum r) i)
          else playerScores r i)"
  by (simp add: loopOf_def loop_scores guessers_distinct)

lemma loopOf_scores_other:
  "i \<notin> pid ` set (guessersOf r) \<Longrightarrow> fst (snd (loopOf r)) i = playerScores r i"
  by (simp add: loopOf_def loop_scores_other)

lemma reveal_score_guesser:
  assumes "distinct (map pid (players r))" and "p \<in> set (guessersOf r)"
  shows "scoreOf (playerScores (fst (revealRound r))) (pid p)
           = scoreOf (playerScores r) (pid p) + roundPoints r p"
proof -
  have in_g: "pid p \<in> pid ` set (guessersOf r)"
    using assms(2) by simp
  have loop: "fst (snd (loopOf r)) (pid p) = Some (scoreOf (playerScores r) (pid p) + roundPoints r p)"
    using in_g by (simp add: loopOf_scores [OF assms(1)] roundPoints_def)
  have not_clue: "cluegiverId r \<noteq> Some (pid p)"
    using assms(2) by (auto simp: guessersOf_def)
  have "playerScores (fst (revealRound r)) (pid p) = fst (snd (loopOf r)) (pid p)"
    using not_clue by (cases "cluegiverId r") (auto simp: revealRound_room)
  with loop show ?thesis
    by (simp add: scoreOf_def)
qed

lemma reveal_entry_guesser:
  assumes "p \<in> set (guessersOf r)"
  shows "\<exists>rv. lastReveal (fst (revealRound r)) = Some rv
           \<and> rv_perPlayer rv (pid p) = Some (entryOf (guesses r) (targetNum r) (pid p))
           \<and> rv_total rv = score (fst (revealRound r))"
  using assms by (simp add: revealRound_room loopOf_perPlayer)

lemma reveal_team_score:
  "score (fst (revealRound r)) = score r + sum_list (map (roundPoints r) (guessersOf r))"
  by (simp add: revealRound_room loopOf_sum)

text \<open>
  C3 (as the code has it).  At every reveal (both \<open>round:lock\<close> and \<open>round:revealNow\<close>
  run \<open>revealRound\<close>), in a room whose players have distinct ids, each guesser \<open>p\<close> (a
  player other than the clue-giver) who submitted a numeric guess \<open>gv\<close> has the cumulative
  score increased by exactly the tier points (4 up to 10, 3 up to 17, 2 up to 24, 1 up to
  34, else 0) of the distance as the server computes it, which is \<open>|gv - target|\<close> with
  the difference rounded to the nearest double, and is recorded with that guess, distance
  and points.  This distance is \<open>|gv - target|\<close> itself whenever the guess has at most 46
  binary digits after the point (every integer has) and lies within 128 of the target.  A
  guesser who submitted no guess is recorded with points 0, absent guess and absent
  distance, and keeps the score; and the cumulative team score grows by exactly the sum of
  all guessers' tier points of the round.
\<close>

theorem reveal_credits_guessers:
  assumes "distinct (map pid (players r))" and "p \<in> set (guessersOf r)"
  shows "\<exists>rv. lastReveal (fst (revealRound r)) = Some rv
     \<and> (case mapGet (guesses r) (pid p) of
          Some gv \<Rightarrow>
            scoreOf (playerScores (fst (revealRound r))) (pid p)
              = scoreOf (playerScores r) (pid p) + spec_tier (doubleDist gv (targetNum r))
            \<and> rv_perPlayer rv (pid p)
              = Some \<lparr>pp_guess = Some gv, pp_dist = Some (doubleDist gv (targetNum r)),
                      pp_pts = spec_tier (doubleDist gv (targetNum r))\<rparr>
            \<and> (binary46 gv \<and> \<bar>gv - of_int (targetNum r)\<bar> < 128
                 \<longrightarrow> doubleDist gv (targetNum r) = \<bar>gv - of_int (targetNum r)\<bar>)
        | None \<Rightarrow>
            scoreOf (playerScores (fst (revealRound r))) (pid p) = scoreOf (playerScores r) (pid p)
            \<and> rv_perPlayer rv (pid p) = Some \<lparr>pp_guess = None, pp_dist = None, pp_pts = 0\<rparr>)
     \<and> score (fst (revealRound r)) = score r + sum_list (map (roundPoints r) (guessersOf r))
     \<and> rv_total rv = score (fst (revealRound r))"
proof -
  from reveal_entry_guesser [OF assms(2)] obtain rv where
    rv: "lastReveal (fst (revealRound r)) = Some rv"
    and entry: "rv_perPlayer rv (pid p) = Some (entryOf (guesses r) (targetNum r) (pid p))"
    and total: "rv_total rv = score (fst (revealRound r))"
    by blast
  note sc = reveal_score_guesser [OF assms]
  show ?thesis
  proof (cases "mapGet (guesses r) (pid p)")
    case None
    with rv entry total sc reveal_team_score [of r] show ?thesis
      by (simp add: entryOf_def roundPoints_def tierOf_def)
  next
    case (Some gv)
    have "binary46 gv \<and> \<bar>gv - of_int (targetNum r)\<bar> < 128
            \<longrightarrow> doubleDist gv (targetNum r) = \<bar>gv - of_int (targetNum r)\<bar>"
      using doubleDist_exact [of gv "targetNum r"] by blast
    with Some rv entry total sc reveal_team_score [of r] show ?thesis
      by (simp add: entryOf_def roundPoints_def tierOf_def)
  qed
qed

text \<open>
  C4.  At every reveal the clue-giver's cumulative score grows by the arithmetic mean,
  rounded to the nearest integer with a half going up, of the tier points of exactly the
  guessers who submitted a numeric guess, and by 0 when no guesser did; the snapshot records
  these points as \<open>cluePts\<close>; the team score grows by the guessers' points only.  (With
  fewer than \<open>2^40\<close> guessers the division on doubles cannot move the mean across a
  rounding boundary.)
\<close>

theorem reveal_credits_cluegiver:
  assumes "cluegiverId r = Some c" and "c \<noteq> []" and "length (submitted r) < 2 ^ 40"
  shows "scoreOf (playerScores (fst (revealRound r))) c = scoreOf (playerScores r) c + spec_cluePts r
     \<and> (\<exists>rv. lastReveal (fst (revealRound r)) = Some rv \<and> rv_cluePts rv = spec_cluePts r)
     \<and> score (fst (revealRound r)) = score r + sum_list (map (roundPoints r) (submitted r))"
proof -
  note cp = cluePtsOf_eq [OF assms(3)]
  have "fst (snd (loopOf r)) c = playerScores r c"
    using cluegiver_not_guesser [OF assms(1)] by (rule loopOf_scores_other)
  then have "scoreOf (fst (snd (loopOf r))) c = scoreOf (playerScores r) c"
    by (simp add: scoreOf_def)
  then have own: "scoreOf (playerScores (fst (revealRound r))) c
                    = scoreOf (playerScores r) c + spec_cluePts r"
    using assms(1,2) by (simp add: revealRound_room cp scoreOf_def)
  have snap: "\<exists>rv. lastReveal (fst (revealRound r)) = Some rv \<and> rv_cluePts rv = spec_cluePts r"
    by (simp add: revealRound_room cp)
  have team: "score (fst (revealRound r)) = score r + sum_list (map (roundPoints r) (submitted r))"
    by (simp add: reveal_team_score sum_submitted_room)
  from own snap team show ?thesis by blast
qed

lemma loopOf_locked: "loopOf (r\<lparr>locked := L\<rparr>) = loopOf r"
  by (simp add: loopOf_def guessersOf_def targetNum_def)

lemma cluePtsOf_locked: "cluePtsOf (r\<lparr>locked := L\<rparr>) = cluePtsOf r"
  by (simp add: cluePtsOf_def loopOf_locked)

text \<open>
  C5 (as the code has it).  At every reveal the stored final guess is 50 when no guesser (a
  player other than the current clue-giver) both submitted a guess and locked, and else the
  mean of the guess values of those guessers, computed in double arithmetic and rounded to
  the nearest integer with a half going up.  When these values are integers from 0 to 100
  and fewer than \<open>2^40\<close>, this is their arithmetic mean, rounded.  The snapshot holds the
  final guess, its distance from the target as \<open>dist\<close> and the tier of that distance as
  \<open>delta\<close>.  The players' scores and the team score after the reveal do not depend on
  who locked, hence not on the final guess; the team score grows by the guessers' tier
  points alone.
\<close>

theorem reveal_final_guess:
  "finalGuess (fst (revealRound r))
     = Some (if lockedGuesses r = [] then 50 else round (doubleMean (lockedGuesses r)))
   \<and> ((\<forall>v\<in>set (lockedGuesses r). v \<in> \<int> \<and> 0 \<le> v \<and> v \<le> 100) \<and> length (lockedGuesses r) < 2 ^ 40
        \<longrightarrow> finalGuess (fst (revealRound r)) = Some (spec_finalGuess r))
   \<and> (\<exists>rv. lastReveal (fst (revealRound r)) = Some rv
          \<and> finalGuess (fst (revealRound r)) = Some (rv_finalGuess rv)
          \<and> rv_dist rv = \<bar>rv_finalGuess rv - targetNum r\<bar>
          \<and> rv_delta rv = spec_tier (of_int (rv_dist rv)))
   \<and> playerScores (fst (revealRound (r\<lparr>locked := L\<rparr>))) = playerScores (fst (revealRound r))
   \<and> score (fst (revealRound (r\<lparr>locked := L\<rparr>))) = score (fst (revealRound r))
   \<and> score (fst (revealRound r)) = score r + sum_list (map (roundPoints r) (guessersOf r))"
proof -
  have fg: "finalGuess (fst (revealRound r))
     = Some (if lockedGuesses r = [] then 50 else round (doubleMean (lockedGuesses r)))"
    by (simp add: revealRound_room computeFinalGuess_eq)
  have ex: "(\<forall>v\<in>set (lockedGuesses r). v \<in> \<int> \<and> 0 \<le> v \<and> v \<le> 100) \<and> length (lockedGuesses r) < 2 ^ 40
        \<longrightarrow> finalGuess (fst (revealRound r)) = Some (spec_finalGuess r)"
    using computeFinalGuess_exact [of r] by (simp add: revealRound_room)
  have snap: "\<exists>rv. lastReveal (fst (revealRound r)) = Some rv
          \<and> finalGuess (fst (revealRound r)) = Some (rv_finalGuess rv)
          \<and> rv_dist rv = \<bar>rv_finalGuess rv - targetNum r\<bar>
          \<and> rv_delta rv = spec_tier (of_int (rv_dist rv))"
    by (simp add: revealRound_room scoreFromDistance_tier)
  have ps: "playerScores (fst (revealRound (r\<lparr>locked := L\<rparr>))) = playerScores (fst (revealRound r))"
    by (simp add: revealRound_room loopOf_locked cluePtsOf_locked split: option.split)
  have sc: "score (fst (revealRound (r\<lparr>locked := L\<rparr>))) = score (fst (revealRound r))"
    by (simp add: revealRound_room loopOf_locked)
  from fg ex snap ps sc reveal_team_score [of r] show ?thesis by (intro conjI)
qed

subsection \<open>Worked rounds\<close>

lemma floor_numeral_div: "\<lfloor>(numeral a :: rat) / numeral b\<rfloor> = numeral a div numeral b"
  using floor_divide_of_int_eq [of "numeral a" "numeral b", where ?'a = rat] by simp

text \<open>The distances and points in the room with four players.\<close>

lemma mixed_guessers:
  "guessersOf mixedRoom = [\<lparr>pid = ''b'', pname = ''Bob''\<rparr>, \<lparr>pid = ''c'', pname = ''Cy''\<rparr>,
                           \<lparr>pid = ''d'', pname = ''Dee''\<rparr>]"
  "submitted mixedRoom = [\<lparr>pid = ''b'', pname = ''Bob''\<rparr>, \<lparr>pid = ''c'', pname = ''Cy''\<rparr>]"
  "targetNum mixedRoom = 50"
proof -
  show g: "guessersOf mixedRoom = [\<lparr>pid = ''b'', pname = ''Bob''\<rparr>, \<lparr>pid = ''c'', pname = ''Cy''\<rparr>,
                           \<lparr>pid = ''d'', pname = ''Dee''\<rparr>]"
    by (simp add: mixedRoom_def demoRoom_def guessersOf_def)
  have m: "mapGet (guesses mixedRoom) ''b'' = Some (125 / 2)"
    "mapGet (guesses mixedRoom) ''c'' = Some 45" "mapGet (guesses mixedRoom) ''d'' = None"
    by (simp_all add: mixedRoom_def demoRoom_def mapGet_def)
  show "submitted mixedRoom = [\<lparr>pid = ''b'', pname = ''Bob''\<rparr>, \<lparr>pid = ''c'', pname = ''Cy''\<rparr>]"
    by (simp add: submitted_def g m del: not_None_eq)
  show "targetNum mixedRoom = 50"
    by (simp add: mixedRoom_def demoRoom_def targetNum_def)
qed

lemma mixed_dist: "doubleDist (125 / 2) 50 = 25 / 2" "doubleDist 45 50 = 5"
  by (simp_all add: doubleDist_def fl_numeral_half fl_neg_numeral)

lemma mixed_points:
  "map (roundPoints mixedRoom) (guessersOf mixedRoom) = [3, 4, 0]"
  "map (roundPoints mixedRoom) (submitted mixedRoom) = [3, 4]"
proof -
  have m: "mapGet (guesses mixedRoom) ''b'' = Some (125 / 2)"
    "mapGet (guesses mixedRoom) ''c'' = Some 45" "mapGet (guesses mixedRoom) ''d'' = None"
    by (simp_all add: mixedRoom_def demoRoom_def mapGet_def)
  show "map (roundPoints mixedRoom) (guessersOf mixedRoom) = [3, 4, 0]"
    by (simp add: mixed_guessers roundPoints_def tierOf_def m mixed_dist spec_tier_def)
  show "map (roundPoints mixedRoom) (submitted mixedRoom) = [3, 4]"
    by (simp add: mixed_guessers roundPoints_def tierOf_def m mixed_dist spec_tier_def)
qed

theorem reveal_credits_guessers_witness:
  "distinct (map pid (players mixedRoom))
   \<and> \<lparr>pid = ''b'', pname = ''Bob''\<rparr> \<in> set (guessersOf mixedRoom)
   \<and> mapGet (guesses mixedRoom) ''b'' = Some (125 / 2)
   \<and> binary46 (125 / 2) \<and> \<bar>125 / 2 - of_int (targetNum mixedRoom)\<bar> < (128::rat)
   \<and> scoreOf (playerScores mixedRoom) ''b'' = 2
   \<and> scoreOf (playerScores (fst (revealRound mixedRoom))) ''b'' = 5
   \<and> (\<exists>rv. lastReveal (fst (revealRound mixedRoom)) = Some rv
          \<and> rv_perPlayer rv ''b'' = Some \<lparr>pp_guess = Some (125 / 2), pp_dist = Some (25 / 2), pp_pts = 3\<rparr>)
   \<and> score mixedRoom = 6
   \<and> score (fst (revealRound mixedRoom)) = 13"
proof -
  have h: "distinct (map pid (players mixedRoom))"
    "\<lparr>pid = ''b'', pname = ''Bob''\<rparr> \<in> set (guessersOf mixedRoom)"
    by (simp_all add: mixed_guessers) (simp add: mixedRoom_def demoRoom_def)
  have g: "mapGet (guesses mixedRoom) ''b'' = Some (125 / 2)"
    by (simp add: mixedRoom_def demoRoom_def mapGet_def)
  have b: "binary46 (125 / 2)" "\<bar>125 / 2 - of_int (targetNum mixedRoom)\<bar> < (128::rat)"
    by (simp_all add: binary46_def mixed_guessers)
  have s: "scoreOf (playerScores mixedRoom) ''b'' = 2" "score mixedRoom = 6"
    by (simp_all add: mixedRoom_def demoRoom_def scoreOf_def)
  have th: "\<exists>rv. lastReveal (fst (revealRound mixedRoom)) = Some rv
     \<and> (scoreOf (playerScores (fst (revealRound mixedRoom))) ''b''
              = scoreOf (playerScores mixedRoom) ''b'' + spec_tier (doubleDist (125 / 2) (targetNum mixedRoom))
        \<and> rv_perPlayer rv ''b''
              = Some \<lparr>pp_guess = Some (125 / 2), pp_dist = Some (doubleDist (125 / 2) (targetNum mixedRoom)),
                      pp_pts = spec_tier (doubleDist (125 / 2) (targetNum mixedRoom))\<rparr>
        \<and> (binary46 (125 / 2) \<and> \<bar>125 / 2 - of_int (targetNum mixedRoom)\<bar> < (128::rat)
                 \<longrightarrow> doubleDist (125 / 2) (targetNum mixedRoom) = \<bar>125 / 2 - of_int (targetNum mixedRoom)\<bar>))
     \<and> score (fst (revealRound mixedRoom))
          = score mixedRoom + sum_list (map (roundPoints mixedRoom) (guessersOf mixedRoom))
     \<and> rv_total rv = score (fst (revealRound mixedRoom))"
    using reveal_credits_guessers [OF h] unfolding player.simps g option.case .
  then obtain rv where
    rv: "lastReveal (fst (revealRound mixedRoom)) = Some rv"
    and sc: "scoreOf (playerScores (fst (revealRound mixedRoom))) ''b''
               = scoreOf (playerScores mixedRoom) ''b'' + spec_tier (doubleDist (125 / 2) (targetNum mixedRoom))"
    and en: "rv_perPlayer rv ''b''
               = Some \<lparr>pp_guess = Some (125 / 2), pp_dist = Some (doubleDist (125 / 2) (targetNum mixedRoom)),
                       pp_pts = spec_tier (doubleDist (125 / 2) (targetNum mixedRoom))\<rparr>"
    and ex: "binary46 (125 / 2) \<and> \<bar>125 / 2 - of_int (targetNum mixedRoom)\<bar> < (128::rat)
               \<longrightarrow> doubleDist (125 / 2) (targetNum mixedRoom) = \<bar>125 / 2 - of_int (targetNum mixedRoom)\<bar>"
    and tm: "score (fst (revealRound mixedRoom))
               = score mixedRoom + sum_list (map (roundPoints mixedRoom) (guessersOf mixedRoom))"
    by blast
  from ex b have "doubleDist (125 / 2) (targetNum mixedRoom) = \<bar>125 / 2 - of_int (targetNum mixedRoom)\<bar>"
    by (rule mp [OF _ conjI])
  then have d: "doubleDist (125 / 2) (targetNum mixedRoom) = 25 / 2"
    by (simp add: mixed_guessers)
  have sc': "scoreOf (playerScores (fst (revealRound mixedRoom))) ''b'' = 5"
    by (simp add: sc d s spec_tier_def)
  have en': "\<exists>rv. lastReveal (fst (revealRound mixedRoom)) = Some rv
          \<and> rv_perPlayer rv ''b'' = Some \<lparr>pp_guess = Some (125 / 2), pp_dist = Some (25 / 2), pp_pts = 3\<rparr>"
    by (simp add: rv en d spec_tier_def)
  have tm': "score (fst (revealRound mixedRoom)) = 13"
    by (simp add: tm s mixed_points)
  show ?thesis
    by (intro conjI) (fact h(1), fact h(2), fact g, fact b(1), fact b(2), fact s(1), fact sc', fact en',
        fact s(2), fact tm')
qed

theorem reveal_credits_cluegiver_witness:
  "cluegiverId mixedRoom = Some ''a'' \<and> ''a'' \<noteq> [] \<and> length (submitted mixedRoom) < 2 ^ 40
   \<and> map (roundPoints mixedRoom) (submitted mixedRoom) = [3, 4]
   \<and> scoreOf (playerScores mixedRoom) ''a'' = 3
   \<and> scoreOf (playerScores (fst (revealRound mixedRoom))) ''a'' = 7
   \<and> (\<exists>rv. lastReveal (fst (revealRound mixedRoom)) = Some rv \<and> rv_cluePts rv = 4)
   \<and> score mixedRoom = 6
   \<and> score (fst (revealRound mixedRoom)) = 13"
proof -
  have h: "cluegiverId mixedRoom = Some ''a''" "''a'' \<noteq> []" "length (submitted mixedRoom) < 2 ^ 40"
    by (simp_all add: mixed_guessers) (simp add: mixedRoom_def demoRoom_def)
  have s: "scoreOf (playerScores mixedRoom) ''a'' = 3" "score mixedRoom = 6"
    by (simp_all add: mixedRoom_def demoRoom_def scoreOf_def)
  have cp: "spec_cluePts mixedRoom = 4"
    by (simp add: spec_cluePts_def mixed_points) (simp add: mixed_guessers round_def)
  from reveal_credits_cluegiver [OF h]
  have own: "scoreOf (playerScores (fst (revealRound mixedRoom))) ''a'' = 7"
    and snap: "\<exists>rv. lastReveal (fst (revealRound mixedRoom)) = Some rv \<and> rv_cluePts rv = 4"
    and team: "score (fst (revealRound mixedRoom)) = 13"
    by (simp_all add: cp s mixed_points)
  show ?thesis
    by (intro conjI) (fact h(1), fact h(2), fact h(3), fact mixed_points(2), fact s(1), fact own,
        fact snap, fact s(2), fact team)
qed

lemma demo_locked:
  "lockedGuesses demoRoom = [45]"
  "lockedGuesses (demoRoom\<lparr>locked := [''b'', ''c'']\<rparr>) = [45, 60]"
  "lockedGuesses (demoRoom\<lparr>locked := []\<rparr>) = []"
  by (simp_all add: lockedGuesses_def demoRoom_def guessersOf_def mapGet_def List.map_filter_simps)

theorem reveal_final_guess_witness:
  "list_all (\<lambda>v. v \<in> \<int> \<and> 0 \<le> v \<and> v \<le> 100) (lockedGuesses (demoRoom\<lparr>locked := [''b'', ''c'']\<rparr>))
   \<and> length (lockedGuesses (demoRoom\<lparr>locked := [''b'', ''c'']\<rparr>)) < 2 ^ 40
   \<and> lockedGuesses (demoRoom\<lparr>locked := [''b'', ''c'']\<rparr>) = [45, 60]
   \<and> finalGuess (fst (revealRound (demoRoom\<lparr>locked := [''b'', ''c'']\<rparr>))) = Some 53
   \<and> finalGuess (fst (revealRound demoRoom)) = Some 45
   \<and> finalGuess (fst (revealRound (demoRoom\<lparr>locked := []\<rparr>))) = Some 50"
proof -
  have h: "\<forall>v\<in>set (lockedGuesses (demoRoom\<lparr>locked := [''b'', ''c'']\<rparr>)). v \<in> \<int> \<and> 0 \<le> v \<and> v \<le> 100"
    "length (lockedGuesses (demoRoom\<lparr>locked := [''b'', ''c'']\<rparr>)) < 2 ^ 40"
    by (simp_all add: demo_locked)
  have la: "list_all (\<lambda>v. v \<in> \<int> \<and> 0 \<le> v \<and> v \<le> 100) (lockedGuesses (demoRoom\<lparr>locked := [''b'', ''c'']\<rparr>))"
    by (simp add: demo_locked)
  have h1: "\<forall>v\<in>set (lockedGuesses demoRoom). v \<in> \<int> \<and> 0 \<le> v \<and> v \<le> 100"
    "length (lockedGuesses demoRoom) < 2 ^ 40"
    by (simp_all add: demo_locked)
  have sp: "spec_finalGuess (demoRoom\<lparr>locked := [''b'', ''c'']\<rparr>) = 53"
    "spec_finalGuess demoRoom = 45"
    by (simp_all add: spec_finalGuess_def demo_locked round_def floor_numeral_div)
  from reveal_final_guess [of "demoRoom\<lparr>locked := [''b'', ''c'']\<rparr>", THEN conjunct2, THEN conjunct1]
    conjI [OF h]
  have "finalGuess (fst (revealRound (demoRoom\<lparr>locked := [''b'', ''c'']\<rparr>)))
          = Some (spec_finalGuess (demoRoom\<lparr>locked := [''b'', ''c'']\<rparr>))"
    by (rule mp)
  then have a: "finalGuess (fst (revealRound (demoRoom\<lparr>locked := [''b'', ''c'']\<rparr>))) = Some 53"
    by (simp only: sp)
  from reveal_final_guess [of demoRoom, THEN conjunct2, THEN conjunct1] conjI [OF h1]
  have "finalGuess (fst (revealRound demoRoom)) = Some (spec_finalGuess demoRoom)"
    by (rule mp)
  then have b: "finalGuess (fst (revealRound demoRoom)) = Some 45"
    by (simp only: sp)
  from reveal_final_guess [of "demoRoom\<lparr>locked := []\<rparr>", THEN conjunct1]
  have c: "finalGuess (fst (revealRound (demoRoom\<lparr>locked := []\<rparr>))) = Some 50"
    by (simp add: demo_locked)
  show ?thesis
    by (intro conjI) (fact la, fact h(2), fact demo_locked(2), fact a, fact b, fact c)
qed

subsection \<open>Locking and guessing\<close>

lemma withRoom_found:
  "mapGet rs c = Some r \<Longrightarrow> withRoom rs c (\<lambda>r. Inr (h r)) = Inr (mapSet rs c (fst (h r)), snd (h r))"
  by (simp add: withRoom_def case_prod_unfold)

lemma guessersOf_locked: "guessersOf (r\<lparr>locked := L\<rparr>) = guessersOf r"
  by (simp add: guessersOf_def)

lemma onRoundLock_reveals:
  assumes "phase r = GUESS" and "cluegiverId r \<noteq> Some sid"
    and "pid ` set (guessersOf r) \<subseteq> set (setAdd (locked r) sid)"
  shows "onRoundLock r sid = revealRound (r\<lparr>locked := setAdd (locked r) sid\<rparr>)"
proof -
  have "list_all (\<lambda>p. setHas (setAdd (locked r) sid) (pid p)) (guessersOf r)"
    using assms(3) by (auto simp: list_all_iff setHas_def)
  with assms(1,2) show ?thesis
    by (auto simp: onRoundLock_def Let_def guessersOf_locked)
qed

lemma reveal_perPlayer_dom:
  "\<exists>rv. lastReveal (fst (revealRound r)) = Some rv
        \<and> dom (rv_perPlayer rv) = pid ` set (guessersOf r)"
  by (auto simp: revealRound_room loopOf_perPlayer dom_def)

text \<open>
  C6.  During GUESS, when a \<open>round:lock\<close> from a player who is not the clue-giver makes
  the locked set cover every player except the clue-giver, the handler reveals in the same
  step: the phase is REVEAL, and \<open>lastReveal.perPlayer\<close> has an entry for exactly the
  players other than the clue-giver; the clue-giver has none.
\<close>

theorem lock_of_last_guesser_reveals:
  assumes "phase r = GUESS" and "cluegiverId r \<noteq> Some sid"
    and "pid ` set (guessersOf r) \<subseteq> set (setAdd (locked r) sid)"
  shows "\<exists>rv. phase (fst (onRoundLock r sid)) = REVEAL
     \<and> lastReveal (fst (onRoundLock r sid)) = Some rv
     \<and> dom (rv_perPlayer rv)
         = pid ` set (filter (\<lambda>p. Some (pid p) \<noteq> cluegiverId r) (players r))
     \<and> (case cluegiverId (fst (onRoundLock r sid)) of
           None \<Rightarrow> True | Some c \<Rightarrow> rv_perPlayer rv c = None)
     \<and> players (fst (onRoundLock r sid)) = players r
     \<and> cluegiverId (fst (onRoundLock r sid)) = cluegiverId r"
proof -
  let ?r = "r\<lparr>locked := setAdd (locked r) sid\<rparr>"
  have run: "onRoundLock r sid = revealRound ?r"
    using assms by (rule onRoundLock_reveals)
  from reveal_perPlayer_dom [of ?r] obtain rv where
    rv: "lastReveal (fst (revealRound ?r)) = Some rv"
    and dm: "dom (rv_perPlayer rv) = pid ` set (guessersOf r)"
    by (auto simp: guessersOf_locked)
  have ids: "pid ` set (guessersOf r)
               = pid ` set (filter (\<lambda>p. Some (pid p) \<noteq> cluegiverId r) (players r))"
    by (simp add: guessersOf_def)
  have ph: "phase (fst (revealRound ?r)) = REVEAL"
    and pl: "players (fst (revealRound ?r)) = players r"
    and cg: "cluegiverId (fst (revealRound ?r)) = cluegiverId r"
    by (simp_all add: revealRound_room)
  have none: "case cluegiverId r of None \<Rightarrow> True | Some c \<Rightarrow> rv_perPlayer rv c = None"
  proof (cases "cluegiverId r")
    case None
    then show ?thesis by simp
  next
    case (Some c)
    then have "c \<notin> dom (rv_perPlayer rv)"
      unfolding dm by (rule cluegiver_not_guesser)
    with Some show ?thesis by (simp add: domIff)
  qed
  from rv dm ids ph pl cg none show ?thesis
    unfolding run by simp
qed

theorem lock_of_last_guesser_reveals_witness:
  "phase demoRoom = GUESS \<and> cluegiverId demoRoom \<noteq> Some ''c''
   \<and> pid ` set (guessersOf demoRoom) \<subseteq> set (setAdd (locked demoRoom) ''c'')
   \<and> phase (fst (onRoundLock demoRoom ''c'')) = REVEAL
   \<and> (\<exists>rv. lastReveal (fst (onRoundLock demoRoom ''c'')) = Some rv
          \<and> dom (rv_perPlayer rv) = {''b'', ''c''})"
proof -
  have hyps: "phase demoRoom = GUESS" "cluegiverId demoRoom \<noteq> Some ''c''"
    "pid ` set (guessersOf demoRoom) \<subseteq> set (setAdd (locked demoRoom) ''c'')"
    by (simp_all add: demoRoom_def guessersOf_def setAdd_def)
  have ids: "pid ` set (filter (\<lambda>p. Some (pid p) \<noteq> cluegiverId demoRoom) (players demoRoom))
               = {''b'', ''c''}"
    by (simp add: demoRoom_def)
  from lock_of_last_guesser_reveals [OF hyps] ids hyps show ?thesis
    by auto
qed

lemma step_RoundGuess:
  "mapGet rs c = Some r \<Longrightarrow>
   step e rs sid (RoundGuess c v) = Inr (mapSet rs c (fst (onRoundGuess r sid v)), snd (onRoundGuess r sid v))"
  by (simp add: withRoom_found)

lemma step_RoundLock:
  "mapGet rs c = Some r \<Longrightarrow>
   step e rs sid (RoundLock c) = Inr (mapSet rs c (fst (onRoundLock r sid)), snd (onRoundLock r sid))"
  by (simp add: withRoom_found)

lemma step_RoundRevealNow:
  "mapGet rs c = Some r \<Longrightarrow>
   step e rs sid (RoundRevealNow c) =
     Inr (mapSet rs c (fst (onRoundRevealNow r sid)), snd (onRoundRevealNow r sid))"
  by (simp add: withRoom_found)

lemma onRoundRevealNow_reveals:
  "hostId r = Some sid \<Longrightarrow> phase r = GUESS \<Longrightarrow> onRoundRevealNow r sid = revealRound r"
  by (simp add: onRoundRevealNow_def)

lemma floor_half: "\<lfloor>(1::rat) / 2\<rfloor> = 0"
  by (simp add: floor_eq_iff)

lemma Math_round_of_int: "Math_round (of_int n) = n"
  by (simp add: Math_round_def floor_half)

lemma clamp_of_int:
  "clamp01_100 (Fin (of_int n)) = of_int (max 0 (min 100 (Math_round (of_int n))))"
  by (simp add: Math_round_of_int max_def min_def)

lemma step_round_guess:
  assumes "mapGet rs c = Some r" and "phase r = GUESS" and "cluegiverId r \<noteq> Some sid"
  shows "step e rs sid (RoundGuess c v)
           = Inr (mapSet rs c (r\<lparr>guesses := mapSet (guesses r) sid (clamp01_100 v)\<rparr>),
                  broadcastRoom (r\<lparr>guesses := mapSet (guesses r) sid (clamp01_100 v)\<rparr>))"
proof -
  have "onRoundGuess r sid v
          = (r\<lparr>guesses := mapSet (guesses r) sid (clamp01_100 v)\<rparr>,
             broadcastRoom (r\<lparr>guesses := mapSet (guesses r) sid (clamp01_100 v)\<rparr>))"
    using assms(2,3) by (auto simp: onRoundGuess_def Let_def)
  then show ?thesis
    unfolding step_RoundGuess [OF assms(1)] by simp
qed

text \<open>
  C1 (as the code has it).  For every \<open>round:guess\<close> with value \<open>v\<close> received during
  GUESS from a socket that is not the clue-giver, the guess stored for the sender is \<open>v\<close>
  clamped to [0, 100], without rounding, and 50 when \<open>v\<close> is not finite.  Hence the stored
  guess is \<open>clamp (round v) 0 100\<close> whenever \<open>v\<close> is an integer or not finite.
\<close>

theorem round_guess_stores_clamped:
  assumes "mapGet rs c = Some r" and "phase r = GUESS" and "cluegiverId r \<noteq> Some sid"
  shows "\<exists>r'. step e rs sid (RoundGuess c v) = Inr (mapSet rs c r', broadcastRoom r')
     \<and> mapGet (guesses r') sid
         = Some (case v of Fin x \<Rightarrow> max 0 (min 100 x) | NaN \<Rightarrow> 50 | PosInf \<Rightarrow> 50 | NegInf \<Rightarrow> 50)
     \<and> (case v of
           Fin x \<Rightarrow> x \<notin> \<int> \<or> mapGet (guesses r') sid = Some (spec_storedGuess v)
         | _ \<Rightarrow> mapGet (guesses r') sid = Some (spec_storedGuess v))"
proof -
  let ?r = "r\<lparr>guesses := mapSet (guesses r) sid (clamp01_100 v)\<rparr>"
  have st: "step e rs sid (RoundGuess c v) = Inr (mapSet rs c ?r, broadcastRoom ?r)"
    using assms by (rule step_round_guess)
  have stored: "mapGet (guesses ?r) sid = Some (clamp01_100 v)"
    by (simp add: mapGet_mapSet)
  have val: "clamp01_100 v = (case v of Fin x \<Rightarrow> max 0 (min 100 x) | NaN \<Rightarrow> 50 | PosInf \<Rightarrow> 50 | NegInf \<Rightarrow> 50)"
    by (cases v) simp_all
  have spec: "case v of
           Fin x \<Rightarrow> x \<notin> \<int> \<or> mapGet (guesses ?r) sid = Some (spec_storedGuess v)
         | _ \<Rightarrow> mapGet (guesses ?r) sid = Some (spec_storedGuess v)"
  proof (cases v)
    case (Fin x)
    show ?thesis
    proof (cases "x \<in> \<int>")
      case True
      then obtain n where "x = of_int n" by (auto elim: Ints_cases)
      with Fin stored show ?thesis
        by (simp add: spec_storedGuess_def clamp_of_int [symmetric])
    next
      case False
      with Fin show ?thesis by simp
    qed
  qed (simp_all add: mapGet_mapSet spec_storedGuess_def)
  from st stored val spec show ?thesis
    by (intro exI [of _ ?r]) simp
qed

theorem round_guess_stores_clamped_witness:
  "mapGet demoRooms ''ABCDE'' = Some demoRoom \<and> phase demoRoom = GUESS
   \<and> cluegiverId demoRoom \<noteq> Some ''b''
   \<and> (\<exists>r'. step demoEnv demoRooms ''b'' (RoundGuess ''ABCDE'' (Fin 120))
              = Inr (mapSet demoRooms ''ABCDE'' r', broadcastRoom r')
          \<and> mapGet (guesses r') ''b'' = Some 100)"
proof -
  have hyps: "mapGet demoRooms ''ABCDE'' = Some demoRoom" "phase demoRoom = GUESS"
    "cluegiverId demoRoom \<noteq> Some ''b''"
    by (simp_all add: demoRooms_def demoRoom_def mapGet_def)
  from round_guess_stores_clamped [OF hyps, of demoEnv "Fin 120"]
  have "\<exists>r'. step demoEnv demoRooms ''b'' (RoundGuess ''ABCDE'' (Fin 120))
              = Inr (mapSet demoRooms ''ABCDE'' r', broadcastRoom r')
          \<and> mapGet (guesses r') ''b'' = Some 100"
    by auto
  with hyps show ?thesis by blast
qed

text \<open>The guess 45.5 is stored as 45.5; rounded first it would be 46.\<close>

theorem round_guess_not_rounded:
  "(\<exists>r'. step demoEnv demoRooms ''b'' (RoundGuess ''ABCDE'' (Fin (91 / 2)))
            = Inr (mapSet demoRooms ''ABCDE'' r', broadcastRoom r')
        \<and> mapGet (guesses r') ''b'' = Some (91 / 2))
   \<and> spec_storedGuess (Fin (91 / 2)) = 46"
proof -
  have "mapGet demoRooms ''ABCDE'' = Some demoRoom" "phase demoRoom = GUESS"
    "cluegiverId demoRoom \<noteq> Some ''b''"
    by (simp_all add: demoRooms_def demoRoom_def mapGet_def)
  from step_round_guess [OF this, of demoEnv "Fin (91 / 2)"]
  have "\<exists>r'. step demoEnv demoRooms ''b'' (RoundGuess ''ABCDE'' (Fin (91 / 2)))
            = Inr (mapSet demoRooms ''ABCDE'' r', broadcastRoom r')
        \<and> mapGet (guesses r') ''b'' = Some (91 / 2)"
    by (intro exI [of _ "demoRoom\<lparr>guesses := mapSet (guesses demoRoom) ''b'' (clamp01_100 (Fin (91 / 2)))\<rparr>"])
       (simp add: mapGet_mapSet)
  moreover have "spec_storedGuess (Fin (91 / 2)) = 46"
    by (simp add: spec_storedGuess_def Math_round_def)
  ultimately show ?thesis by blast
qed

subsection \<open>Rounded distances and sums\<close>

text \<open>With target 11 and the guess \<open>1 - 2^(-53)\<close> the distance is \<open>10 + 2^(-53)\<close>, above
  10, which is worth 3 points; the server rounds the difference to \<open>-10\<close> and credits 4.
  Bob's guess arrives by \<open>round:guess\<close> and the host reveals.\<close>

theorem reveal_tier_of_rounded_distance:
  "step demoEnv [(''ABCDE'', seamStart)] ''b'' (RoundGuess ''ABCDE'' (Fin seamGuess))
     = Inr ([(''ABCDE'', seamRoom)], broadcastRoom seamRoom)
   \<and> step demoEnv [(''ABCDE'', seamRoom)] ''a'' (RoundRevealNow ''ABCDE'')
     = Inr ([(''ABCDE'', fst (revealRound seamRoom))], snd (revealRound seamRoom))
   \<and> target seamRoom = Some 11
   \<and> mapGet (guesses seamRoom) ''b'' = Some seamGuess
   \<and> \<bar>seamGuess - 11\<bar> = 10 + 1 / 2 ^ 53
   \<and> spec_tier \<bar>seamGuess - 11\<bar> = 3
   \<and> scoreOf (playerScores seamRoom) ''b'' = 2
   \<and> scoreOf (playerScores (fst (revealRound seamRoom))) ''b'' = 6
   \<and> score seamRoom = 6
   \<and> score (fst (revealRound seamRoom)) = 10"
proof -
  have g: "guessersOf seamRoom = [\<lparr>pid = ''b'', pname = ''Bob''\<rparr>, \<lparr>pid = ''c'', pname = ''Cy''\<rparr>]"
    "targetNum seamRoom = 11" "guesses seamRoom = [(''b'', seamGuess), (''c'', 60)]"
    by (simp_all add: seamRoom_def seamStart_def demoRoom_def guessersOf_def targetNum_def)
  have d: "doubleDist seamGuess 11 = 10" "doubleDist 60 11 = 49"
    by (simp only: doubleDist_def seamGuess_def of_int_numeral seam_diff abs_minus_cancel abs_numeral)
       (simp add: doubleDist_def fl_numeral)
  have pts: "map (roundPoints seamRoom) (guessersOf seamRoom) = [4, 0]"
    by (simp add: g roundPoints_def tierOf_def mapGet_def d spec_tier_def)
  have dist: "distinct (map pid (players seamRoom))"
    by (simp add: seamRoom_def seamStart_def demoRoom_def)
  have s1: "step demoEnv [(''ABCDE'', seamStart)] ''b'' (RoundGuess ''ABCDE'' (Fin seamGuess))
     = Inr ([(''ABCDE'', seamRoom)], broadcastRoom seamRoom)"
  proof -
    have "mapGet [(''ABCDE'', seamStart)] ''ABCDE'' = Some seamStart" "phase seamStart = GUESS"
      "cluegiverId seamStart \<noteq> Some ''b''"
      by (simp_all add: mapGet_def seamStart_def demoRoom_def)
    from step_round_guess [OF this, of demoEnv "Fin seamGuess"]
    have "step demoEnv [(''ABCDE'', seamStart)] ''b'' (RoundGuess ''ABCDE'' (Fin seamGuess))
       = Inr ([(''ABCDE'', seamStart\<lparr>guesses := mapSet (guesses seamStart) ''b'' (clamp01_100 (Fin seamGuess))\<rparr>)],
              broadcastRoom (seamStart\<lparr>guesses := mapSet (guesses seamStart) ''b'' (clamp01_100 (Fin seamGuess))\<rparr>))"
      by simp
    moreover have "seamStart\<lparr>guesses := mapSet (guesses seamStart) ''b'' (clamp01_100 (Fin seamGuess))\<rparr> = seamRoom"
      by (simp add: seamRoom_def seamStart_def demoRoom_def seamGuess_def)
    ultimately show ?thesis by simp
  qed
  have s2: "step demoEnv [(''ABCDE'', seamRoom)] ''a'' (RoundRevealNow ''ABCDE'')
     = Inr ([(''ABCDE'', fst (revealRound seamRoom))], snd (revealRound seamRoom))"
  proof -
    have "mapGet [(''ABCDE'', seamRoom)] ''ABCDE'' = Some seamRoom"
      by (simp add: mapGet_def)
    moreover have "onRoundRevealNow seamRoom ''a'' = revealRound seamRoom"
      by (rule onRoundRevealNow_reveals) (simp_all add: seamRoom_def seamStart_def demoRoom_def)
    ultimately show ?thesis by (simp only: step_RoundRevealNow) (simp add: mapGet_def)
  qed
  have f: "target seamRoom = Some 11" "mapGet (guesses seamRoom) ''b'' = Some seamGuess"
    "scoreOf (playerScores seamRoom) ''b'' = 2" "score seamRoom = 6"
    by (simp_all add: seamRoom_def seamStart_def demoRoom_def mapGet_def scoreOf_def)
  have e: "\<bar>seamGuess - 11\<bar> = 10 + 1 / 2 ^ 53" "spec_tier \<bar>seamGuess - 11\<bar> = 3"
    by (simp_all add: seamGuess_def spec_tier_def)
  have "\<lparr>pid = ''b'', pname = ''Bob''\<rparr> \<in> set (guessersOf seamRoom)" by (simp add: g)
  from reveal_score_guesser [OF dist this]
  have b: "scoreOf (playerScores (fst (revealRound seamRoom))) ''b'' = 6"
    by (simp add: f roundPoints_def tierOf_def g mapGet_def d spec_tier_def)
  have t: "score (fst (revealRound seamRoom)) = 10"
    by (simp add: reveal_team_score pts f)
  show ?thesis
    by (intro conjI) (fact s1, fact s2, fact f(1), fact f(2), fact e(1), fact e(2), fact f(3), fact b,
        fact f(4), fact t)
qed

lemma tie_mean:
  "doubleMean [9007199254740991 / 9007199254740992, 1 / 18014398509481984] = 1 / 2"
proof -
  let ?g1 = "9007199254740991 / 9007199254740992 :: rat"
  let ?g2 = "1 / 18014398509481984 :: rat"
  have "foldl (\<lambda>a b. fl (a + b)) 0 [?g1, ?g2] = fl (fl (0 + ?g1) + ?g2)"
    by (simp only: foldl_Cons foldl_Nil)
  then have sum: "foldl (\<lambda>a b. fl (a + b)) 0 [?g1, ?g2] = 1"
    by (simp only: tie_sum)
  have n: "(of_nat (length [?g1, ?g2]) :: rat) = 2" by simp
  have half: "fl (1 / 2) = 1 / 2" using fl_half [of 1] by simp
  show ?thesis by (simp only: doubleMean_def sum n half)
qed

text \<open>
  Two rounds in which the stored final guess is not the rounded mean of the guesses of the
  players who guessed and locked.  When Ann, host and clue-giver, leaves the room in play,
  Bob, who has guessed 45 and locked, becomes the clue-giver; Cy's lock then reveals, and
  the final guess is Cy's 60, not the rounded mean 53 of 45 and 60.  With the guesses
  \<open>1 - 2^(-53)\<close> and \<open>2^(-54)\<close>, both locked, the sum is rounded to 1 and the final
  guess is \<open>Math.round(0.5) = 1\<close>, while the mean of the two values is below 0.5.
\<close>

theorem final_guess_of_guessers_in_doubles:
  "step demoEnv demoRooms ''a'' Disconnect = Inr ([(''ABCDE'', orphanRoom)], broadcastRoom orphanRoom)
   \<and> (\<exists>r outs. step demoEnv [(''ABCDE'', orphanRoom)] ''c'' (RoundLock ''ABCDE'')
                  = Inr ([(''ABCDE'', r)], outs)
          \<and> phase r = REVEAL
          \<and> cluegiverId r = Some ''b''
          \<and> claimedGuesses r = [45, 60]
          \<and> claimed_finalGuess r = 53
          \<and> finalGuess r = Some 60)
   \<and> claimedGuesses tieRoom = [9007199254740991 / 9007199254740992, 1 / 18014398509481984]
   \<and> claimed_finalGuess tieRoom = 0
   \<and> finalGuess (fst (revealRound tieRoom)) = Some 1"
proof -
  let ?l = "orphanRoom\<lparr>locked := setAdd (locked orphanRoom) ''c''\<rparr>"
  have d: "disconnectRoom demoRoom ''a'' = (Some orphanRoom, broadcastRoom orphanRoom)"
    by (simp add: disconnectRoom_def Let_def demoRoom_def orphanRoom_def firstIdOrNull_def)
  have s1: "step demoEnv demoRooms ''a'' Disconnect
              = Inr ([(''ABCDE'', orphanRoom)], broadcastRoom orphanRoom)"
    by (simp add: demoRooms_def d)
  have run: "onRoundLock orphanRoom ''c'' = revealRound ?l"
    by (rule onRoundLock_reveals)
       (simp_all add: orphanRoom_def demoRoom_def guessersOf_def setAdd_def)
  have m: "mapGet [(''ABCDE'', orphanRoom)] ''ABCDE'' = Some orphanRoom"
    by (simp add: mapGet_def)
  have s2: "step demoEnv [(''ABCDE'', orphanRoom)] ''c'' (RoundLock ''ABCDE'')
              = Inr ([(''ABCDE'', fst (revealRound ?l))], snd (revealRound ?l))"
    unfolding step_RoundLock [OF m] run by simp
  have lg: "lockedGuesses ?l = [60]"
    by (simp add: lockedGuesses_def orphanRoom_def demoRoom_def guessersOf_def setAdd_def
          mapGet_def List.map_filter_simps)
  have dm: "doubleMean [60] = 60"
    by (simp add: doubleMean_def fl_numeral)
  have fg: "computeFinalGuess ?l = 60"
    by (simp add: computeFinalGuess_eq lg dm)
  have cg: "claimedGuesses (fst (revealRound ?l)) = [45, 60]"
    by (simp add: revealRound_room claimedGuesses_def orphanRoom_def demoRoom_def setAdd_def
          mapGet_def List.map_filter_simps)
  have cf: "claimed_finalGuess (fst (revealRound ?l)) = 53"
    by (simp add: claimed_finalGuess_def cg round_def)
  have r: "phase (fst (revealRound ?l)) = REVEAL" "cluegiverId (fst (revealRound ?l)) = Some ''b''"
    "finalGuess (fst (revealRound ?l)) = Some 60"
    by (simp_all add: revealRound_room fg) (simp add: orphanRoom_def)
  have orphan: "\<exists>r outs. step demoEnv [(''ABCDE'', orphanRoom)] ''c'' (RoundLock ''ABCDE'')
                  = Inr ([(''ABCDE'', r)], outs)
          \<and> phase r = REVEAL
          \<and> cluegiverId r = Some ''b''
          \<and> claimedGuesses r = [45, 60]
          \<and> claimed_finalGuess r = 53
          \<and> finalGuess r = Some 60"
    by (intro exI [of _ "fst (revealRound ?l)"] exI [of _ "snd (revealRound ?l)"] conjI)
       (fact s2, fact r(1), fact r(2), fact cg, fact cf, fact r(3))
  have tg: "claimedGuesses tieRoom = [9007199254740991 / 9007199254740992, 1 / 18014398509481984]"
    "lockedGuesses tieRoom = [9007199254740991 / 9007199254740992, 1 / 18014398509481984]"
    by (simp_all add: claimedGuesses_def lockedGuesses_def tieRoom_def demoRoom_def guessersOf_def
          mapGet_def List.map_filter_simps)
  have tc: "claimed_finalGuess tieRoom = 0"
    by (simp add: claimed_finalGuess_def tg round_def floor_numeral_div)
  have rh: "round (1 / 2 :: rat) = 1" by (simp add: round_def)
  have tf: "finalGuess (fst (revealRound tieRoom)) = Some 1"
    by (simp add: revealRound_room computeFinalGuess_eq tg tie_mean rh)
  show ?thesis
    by (intro conjI) (fact s1, fact orphan, fact tg(1), fact tc, fact tf)
qed

subsection \<open>One step of the registry\<close>

lemma onRoomCreate_eq:
  "onRoomCreate e rs sid name =
     (mapSet rs (new_code e) (freshRoom e sid name),
      Joined sid (new_code e) # broadcastRoom (freshRoom e sid name))"
  by (simp add: onRoomCreate_def freshRoom_def Let_def)

lemma step_result:
  assumes "step e rs sid ev = Inr (rs', outs)"
  shows "(\<exists>name. ev = RoomCreate name \<and> rs' = mapSet rs (new_code e) (freshRoom e sid name)
            \<and> outs = Joined sid (new_code e) # broadcastRoom (freshRoom e sid name))
       \<or> (ev = Disconnect \<and> disconnectAll rs sid = (rs', outs))
       \<or> (rs' = rs \<and> (outs = [] \<or> outs = [RoomError sid ''Room not found.'']))
       \<or> (\<exists>c r r'. codeOf ev = Some c \<and> mapGet rs c = Some r \<and> handled e r sid ev (r', outs)
              \<and> rs' = mapSet rs c r')"
  using assms
  by (cases ev)
     (auto simp: onRoomCreate_eq withRoom_def handled_def split: option.splits sum.splits prod.splits)

lemma set_mapSet: "set (mapSet m k v) \<subseteq> insert (k, v) (set m)"
  by (induction m) (auto split: if_splits)

lemma mapGet_in_set: "mapGet m k = Some v \<Longrightarrow> (k, v) \<in> set m"
  by (simp add: mapGet_def map_of_SomeD)

lemma in_mapSet: "(k, v) \<in> set (mapSet m k v)"
  by (induction m) auto

lemma disconnectAll_fst:
  "fst (disconnectAll ((c, r) # rs) sid) =
     (case fst (disconnectRoom r sid) of
        None \<Rightarrow> fst (disconnectAll rs sid)
      | Some x \<Rightarrow> (c, x) # fst (disconnectAll rs sid))"
  by (simp add: case_prod_unfold Let_def split: option.splits)

lemma disconnectAll_snd:
  "snd (disconnectAll ((c, r) # rs) sid) = snd (disconnectRoom r sid) @ snd (disconnectAll rs sid)"
  by (simp add: case_prod_unfold Let_def)

lemma disconnectRoom_outs:
  "x \<in> set (snd (disconnectRoom r sid)) \<Longrightarrow>
   \<exists>r'. fst (disconnectRoom r sid) = Some r' \<and> x \<in> set (broadcastRoom r')"
  by (auto simp: disconnectRoom_def Let_def split: if_splits)

lemma disconnectAll_rooms:
  "(c, r') \<in> set (fst (disconnectAll rs sid)) \<Longrightarrow>
   \<exists>r. (c, r) \<in> set rs \<and> fst (disconnectRoom r sid) = Some r'"
proof (induction rs)
  case Nil
  then show ?case by simp
next
  case (Cons cr rs)
  obtain c0 r0 where cr: "cr = (c0, r0)" by (cases cr)
  from Cons.prems have
    "(c = c0 \<and> fst (disconnectRoom r0 sid) = Some r') \<or> (c, r') \<in> set (fst (disconnectAll rs sid))"
    unfolding cr disconnectAll_fst by (auto split: option.splits)
  then show ?case
  proof
    assume "c = c0 \<and> fst (disconnectRoom r0 sid) = Some r'"
    then show ?thesis unfolding cr by auto
  next
    assume "(c, r') \<in> set (fst (disconnectAll rs sid))"
    from Cons.IH [OF this] show ?thesis by auto
  qed
qed

lemma disconnectAll_outs:
  "x \<in> set (snd (disconnectAll rs sid)) \<Longrightarrow>
   \<exists>c r'. (c, r') \<in> set (fst (disconnectAll rs sid)) \<and> x \<in> set (broadcastRoom r')"
proof (induction rs)
  case Nil
  then show ?case by simp
next
  case (Cons cr rs)
  obtain c0 r0 where cr: "cr = (c0, r0)" by (cases cr)
  from Cons.prems have
    "x \<in> set (snd (disconnectRoom r0 sid)) \<or> x \<in> set (snd (disconnectAll rs sid))"
    unfolding cr disconnectAll_snd by auto
  then show ?case
  proof
    assume "x \<in> set (snd (disconnectRoom r0 sid))"
    from disconnectRoom_outs [OF this] obtain r' where
      "fst (disconnectRoom r0 sid) = Some r'" "x \<in> set (broadcastRoom r')" by blast
    then show ?thesis unfolding cr disconnectAll_fst by auto
  next
    assume "x \<in> set (snd (disconnectAll rs sid))"
    from Cons.IH [OF this] obtain c r' where
      "(c, r') \<in> set (fst (disconnectAll rs sid))" "x \<in> set (broadcastRoom r')" by blast
    then show ?thesis
      unfolding cr disconnectAll_fst by (cases "fst (disconnectRoom r0 sid)") auto
  qed
qed

lemma startRound_room:
  assumes "startRound e r = Inr (r', outs)"
  shows "phase r' = CLUE \<and> lastReveal r' = None \<and> locked r' = [] \<and> guesses r' = []
       \<and> players r' = players r \<and> outs = broadcastRoom r'"
  using assms
  by (auto simp: startRound_def rotateCluegiver_def Let_def split: sum.splits option.splits)

lemma endGame_room:
  "phase (fst (endGame r)) = GAMEOVER \<and> lastReveal (fst (endGame r)) = None
   \<and> target (fst (endGame r)) = None \<and> locked (fst (endGame r)) = []
   \<and> players (fst (endGame r)) = players r \<and> snd (endGame r) = broadcastRoom (fst (endGame r))"
  by (simp add: endGame_def Let_def)

lemma revealRound_frame:
  "phase (fst (revealRound r)) = REVEAL \<and> locked (fst (revealRound r)) = locked r
   \<and> players (fst (revealRound r)) = players r \<and> cluegiverId (fst (revealRound r)) = cluegiverId r
   \<and> target (fst (revealRound r)) = target r
   \<and> (\<exists>rv. lastReveal (fst (revealRound r)) = Some rv \<and> rv_target rv = target r)"
  by (simp add: revealRound_room)

lemma handled_outs:
  assumes "handled e r sid ev (r', outs)"
  shows "outs = [] \<or> outs = [RoomError sid ''Need at least 2 players.'']
       \<or> outs = broadcastRoom r' \<or> (\<exists>c. outs = Joined sid c # broadcastRoom r')"
proof (cases ev)
  case (RoomJoin c name)
  with assms show ?thesis by (auto simp: handled_def onRoomJoin_def Let_def)
next
  case (PromptsSet c t)
  with assms show ?thesis by (auto simp: handled_def onPromptsSet_def Let_def split: if_splits)
next
  case (ConfigSetRounds c n)
  with assms show ?thesis by (auto simp: handled_def onConfigSetRounds_def Let_def split: if_splits)
next
  case (GameStart c n)
  with assms show ?thesis
    by (auto simp: handled_def onGameStart_def Let_def dest: startRound_room
          split: if_splits sum.splits)
next
  case (RoundClue c t)
  with assms show ?thesis by (auto simp: handled_def onRoundClue_def Let_def split: if_splits)
next
  case (RoundGuess c v)
  with assms show ?thesis by (auto simp: handled_def onRoundGuess_def Let_def split: if_splits)
next
  case (RoundLock c)
  with assms revealRound_outs [of "r\<lparr>locked := setAdd (locked r) sid\<rparr>"] show ?thesis
    by (auto simp: handled_def onRoundLock_def Let_def split: if_splits)
next
  case (RoundRevealNow c)
  with assms revealRound_outs [of r] show ?thesis
    by (auto simp: handled_def onRoundRevealNow_def split: if_splits)
next
  case (RoundNext c)
  with assms endGame_room [of r] show ?thesis
    by (auto simp: handled_def onRoundNext_def dest: startRound_room split: if_splits)
next
  case (GameReplay c)
  with assms show ?thesis
    by (auto simp: handled_def onGameReplay_def Let_def dest: startRound_room
          split: if_splits sum.splits)
qed (use assms in \<open>simp_all add: handled_def\<close>)

lemma handled_snapshotOk:
  assumes "handled e r sid ev (r', outs)" and "snapshotOk r"
  shows "snapshotOk r'"
proof (cases ev)
  case (RoomJoin c name)
  with assms show ?thesis by (auto simp: handled_def onRoomJoin_def Let_def snapshotOk_def)
next
  case (PromptsSet c t)
  with assms show ?thesis
    by (auto simp: handled_def onPromptsSet_def Let_def snapshotOk_def split: if_splits)
next
  case (ConfigSetRounds c n)
  with assms show ?thesis
    by (auto simp: handled_def onConfigSetRounds_def Let_def snapshotOk_def split: if_splits)
next
  case (GameStart c n)
  with assms show ?thesis
    by (auto simp: handled_def onGameStart_def Let_def snapshotOk_def dest: startRound_room
          split: if_splits sum.splits)
next
  case (RoundClue c t)
  with assms show ?thesis
    by (auto simp: handled_def onRoundClue_def Let_def snapshotOk_def split: if_splits)
next
  case (RoundGuess c v)
  with assms show ?thesis
    by (auto simp: handled_def onRoundGuess_def Let_def snapshotOk_def split: if_splits)
next
  case (RoundLock c)
  with assms revealRound_frame [of "r\<lparr>locked := setAdd (locked r) sid\<rparr>"] show ?thesis
    by (auto simp: handled_def onRoundLock_def Let_def snapshotOk_def split: if_splits)
next
  case (RoundRevealNow c)
  with assms revealRound_frame [of r] show ?thesis
    by (auto simp: handled_def onRoundRevealNow_def snapshotOk_def split: if_splits)
next
  case (RoundNext c)
  with assms endGame_room [of r] show ?thesis
    by (auto simp: handled_def onRoundNext_def snapshotOk_def dest: startRound_room
          split: if_splits)
next
  case (GameReplay c)
  with assms show ?thesis
    by (auto simp: handled_def onGameReplay_def Let_def snapshotOk_def dest: startRound_room
          split: if_splits sum.splits)
qed (use assms in \<open>simp_all add: handled_def\<close>)

lemma roomsAll_iff: "roomsAll P rs = (\<forall>c r. (c, r) \<in> set rs \<longrightarrow> P r)"
  by (auto simp: roomsAll_def list_all_iff)

lemma roomsAll_mapSet: "roomsAll P rs \<Longrightarrow> P r \<Longrightarrow> roomsAll P (mapSet rs c r)"
  using set_mapSet [of rs c r] by (auto simp: roomsAll_iff)

lemma disconnectRoom_frame:
  assumes "fst (disconnectRoom r sid) = Some r'"
  shows "phase r' = phase r \<and> lastReveal r' = lastReveal r \<and> finalGuess r' = finalGuess r
       \<and> target r' = target r \<and> score r' = score r \<and> locked r' = locked r
       \<and> guesses r' = guesses r \<and> players r' = filter (\<lambda>p. pid p \<noteq> sid) (players r)"
  using assms by (auto simp: disconnectRoom_def Let_def split: if_splits)

lemma freshRoom_snapshotOk: "snapshotOk (freshRoom e sid name)"
  by (simp add: snapshotOk_def freshRoom_def)

lemma step_snapshotOk:
  assumes "roomsAll snapshotOk rs" and "step e rs sid ev = Inr (rs', outs)"
  shows "roomsAll snapshotOk rs'"
proof -
  from step_result [OF assms(2)] consider
    (create) name where "rs' = mapSet rs (new_code e) (freshRoom e sid name)"
  | (disconnect) "disconnectAll rs sid = (rs', outs)"
  | (same) "rs' = rs"
  | (room) c r r' where "mapGet rs c = Some r" "handled e r sid ev (r', outs)" "rs' = mapSet rs c r'"
    by blast
  then show ?thesis
  proof cases
    case create
    with assms(1) show ?thesis by (simp add: roomsAll_mapSet freshRoom_snapshotOk)
  next
    case disconnect
    show ?thesis
      unfolding roomsAll_iff
    proof (intro allI impI)
      fix c r' assume "(c, r') \<in> set rs'"
      then have "(c, r') \<in> set (fst (disconnectAll rs sid))" by (simp add: disconnect)
      from disconnectAll_rooms [OF this] obtain r where
        r: "(c, r) \<in> set rs" "fst (disconnectRoom r sid) = Some r'" by blast
      from r(1) assms(1) have "snapshotOk r" by (auto simp: roomsAll_iff)
      with disconnectRoom_frame [OF r(2)] show "snapshotOk r'" by (simp add: snapshotOk_def)
    qed
  next
    case same
    with assms(1) show ?thesis by simp
  next
    case room
    from room(1) assms(1) have "snapshotOk r"
      by (auto simp: roomsAll_iff dest: mapGet_in_set)
    with room(2) have "snapshotOk r'" by (rule handled_snapshotOk)
    with assms(1) room(3) show ?thesis by (simp add: roomsAll_mapSet)
  qed
qed

lemma step_outs:
  assumes "step e rs sid ev = Inr (rs', outs)" and "State to st \<in> set outs"
  shows "\<exists>c r'. (c, r') \<in> set rs' \<and> State to st \<in> set (broadcastRoom r')"
proof -
  from step_result [OF assms(1)] consider
    (create) name where "rs' = mapSet rs (new_code e) (freshRoom e sid name)"
      "outs = Joined sid (new_code e) # broadcastRoom (freshRoom e sid name)"
  | (disconnect) "disconnectAll rs sid = (rs', outs)"
  | (same) "outs = [] \<or> outs = [RoomError sid ''Room not found.'']"
  | (room) c r r' where "mapGet rs c = Some r" "handled e r sid ev (r', outs)" "rs' = mapSet rs c r'"
    by blast
  then show ?thesis
  proof cases
    case create
    with assms(2) in_mapSet [of "new_code e" "freshRoom e sid name" rs] show ?thesis by auto
  next
    case disconnect
    then have "State to st \<in> set (snd (disconnectAll rs sid))" using assms(2) by simp
    from disconnectAll_outs [OF this] show ?thesis by (simp add: disconnect)
  next
    case same
    with assms(2) show ?thesis by auto
  next
    case room
    from handled_outs [OF room(2)] assms(2) have "State to st \<in> set (broadcastRoom r')" by auto
    with room(3) in_mapSet [of c r' rs] show ?thesis by auto
  qed
qed

lemma broadcastRoom_payload:
  "State to st \<in> set (broadcastRoom r) \<Longrightarrow> st = safeRoomState r to"
  by (auto simp: broadcastRoom_def)

lemma safeRoomState_fields:
  "st_secretTarget (safeRoomState r p)
     = (if Some p = cluegiverId r \<and> phase r = CLUE then Some (target r) else None)"
  "st_lastReveal (safeRoomState r p) = lastReveal r"
  "st_phase (safeRoomState r p) = phase r"
  "st_cluegiverId (safeRoomState r p) = cluegiverId r"
  by (simp_all add: safeRoomState_def Let_def)

text \<open>
  C8 (as the code has it).  Starting from a registry whose rooms keep their reveal snapshot
  during REVEAL only (as every registry the server reaches does), every \<open>room:state\<close>
  payload that a step sends to a player \<open>to\<close> is the safe state of a room of the
  registry, and: the key \<open>secretTarget\<close> is in it exactly when \<open>to\<close> is the
  clue-giver and the phase is CLUE, and then carries the target; during REVEAL the payload
  shows the target to every player as \<open>lastReveal.target\<close>; in every other phase, GUESS
  and GAMEOVER among them, \<open>lastReveal\<close> is \<open>null\<close>, so that during GUESS and at
  game over no payload holds the target.
\<close>

theorem secret_target_visibility:
  assumes "roomsAll snapshotOk rs" and "step e rs sid ev = Inr (rs', outs)"
    and "State to st \<in> set outs"
  shows "\<exists>c r'. (c, r') \<in> set rs' \<and> st = safeRoomState r' to
     \<and> st_phase st = phase r'
     \<and> st_secretTarget st
         = (if Some to = cluegiverId r' \<and> phase r' = CLUE then Some (target r') else None)
     \<and> (if phase r' = REVEAL
         then (\<exists>rv. st_lastReveal st = Some rv \<and> rv_target rv = target r')
         else st_lastReveal st = None)"
proof -
  from step_outs [OF assms(2,3)] obtain c r' where
    r': "(c, r') \<in> set rs'" and b: "State to st \<in> set (broadcastRoom r')"
    by blast
  have st: "st = safeRoomState r' to"
    using b by (rule broadcastRoom_payload)
  have "roomsAll snapshotOk rs'"
    using assms(1,2) by (rule step_snapshotOk)
  with r' have "snapshotOk r'"
    by (auto simp: roomsAll_iff)
  then have "if phase r' = REVEAL
         then (\<exists>rv. st_lastReveal st = Some rv \<and> rv_target rv = target r')
         else st_lastReveal st = None"
    by (simp add: st safeRoomState_fields snapshotOk_def)
  with r' st show ?thesis
    by (intro exI [of _ c] exI [of _ r']) (simp add: safeRoomState_fields)
qed

lemma demoRooms_snapshotOk: "roomsAll snapshotOk demoRooms"
  by (simp add: roomsAll_def demoRooms_def demoRoom_def snapshotOk_def)

theorem secret_target_visibility_witness:
  "roomsAll snapshotOk demoRooms
   \<and> (\<exists>rs' outs st. step demoEnv demoRooms ''a'' (RoundRevealNow ''ABCDE'') = Inr (rs', outs)
         \<and> State ''b'' st \<in> set outs
         \<and> st_phase st = REVEAL
         \<and> st_secretTarget st = None
         \<and> (\<exists>rv. st_lastReveal st = Some rv \<and> rv_target rv = Some 50))"
proof -
  let ?R = "fst (revealRound demoRoom)"
  let ?st = "safeRoomState ?R ''b''"
  have found: "mapGet demoRooms ''ABCDE'' = Some demoRoom"
    by (simp add: demoRooms_def mapGet_def)
  have run: "onRoundRevealNow demoRoom ''a'' = revealRound demoRoom"
    by (rule onRoundRevealNow_reveals) (simp_all add: demoRoom_def)
  have stp: "step demoEnv demoRooms ''a'' (RoundRevealNow ''ABCDE'')
               = Inr (mapSet demoRooms ''ABCDE'' ?R, broadcastRoom ?R)"
    unfolding step_RoundRevealNow [OF found] run by (simp add: revealRound_outs)
  have mem: "State ''b'' ?st \<in> set (broadcastRoom ?R)"
    by (simp add: broadcastRoom_def revealRound_room demoRoom_def)
  have frame: "phase ?R = REVEAL" "target ?R = Some 50"
    by (simp_all add: revealRound_room demoRoom_def)
  have one: "mapSet demoRooms ''ABCDE'' ?R = [(''ABCDE'', ?R)]"
    by (simp add: demoRooms_def)
  from secret_target_visibility [OF demoRooms_snapshotOk stp mem] obtain c r' where
    "(c, r') \<in> set (mapSet demoRooms ''ABCDE'' ?R)"
    and facts: "st_phase ?st = phase r'"
      "st_secretTarget ?st
         = (if Some ''b'' = cluegiverId r' \<and> phase r' = CLUE then Some (target r') else None)"
      "if phase r' = REVEAL
         then (\<exists>rv. st_lastReveal ?st = Some rv \<and> rv_target rv = target r')
         else st_lastReveal ?st = None"
    by blast
  then have "r' = ?R"
    unfolding one by simp
  with facts frame have p: "st_phase ?st = REVEAL" "st_secretTarget ?st = None"
    "\<exists>rv. st_lastReveal ?st = Some rv \<and> rv_target rv = Some 50"
    by simp_all
  have "\<exists>rs' outs st. step demoEnv demoRooms ''a'' (RoundRevealNow ''ABCDE'') = Inr (rs', outs)
         \<and> State ''b'' st \<in> set outs
         \<and> st_phase st = REVEAL
         \<and> st_secretTarget st = None
         \<and> (\<exists>rv. st_lastReveal st = Some rv \<and> rv_target rv = Some 50)"
    by (intro exI [of _ "mapSet demoRooms ''ABCDE'' ?R"] exI [of _ "broadcastRoom ?R"]
          exI [of _ ?st] conjI)
       (fact stp, fact mem, fact p(1), fact p(2), fact p(3))
  with demoRooms_snapshotOk show ?thesis ..
qed

text \<open>At the end of the last round the host's \<open>round:next\<close> runs \<open>endGame\<close>: the
  payloads of GAMEOVER carry neither \<open>lastReveal\<close> nor \<open>secretTarget\<close>.\<close>

theorem game_over_clears_snapshot:
  "phase revealedRoom = REVEAL \<and> hostId revealedRoom = Some ''a''
   \<and> (\<exists>rv. lastReveal revealedRoom = Some rv \<and> rv_target rv = Some 50)
   \<and> (\<exists>r'. step demoEnv [(''ABCDE'', revealedRoom)] ''a'' (RoundNext ''ABCDE'')
              = Inr ([(''ABCDE'', r')], broadcastRoom r')
          \<and> phase r' = GAMEOVER
          \<and> map (\<lambda>x. case x of State to st \<Rightarrow> (to, st_phase st, st_lastReveal st, st_secretTarget st))
               (broadcastRoom r')
             = [(''a'', GAMEOVER, None, None), (''b'', GAMEOVER, None, None),
                (''c'', GAMEOVER, None, None)])"
proof -
  have f: "phase revealedRoom = REVEAL" "hostId revealedRoom = Some ''a''"
    "currentRound revealedRoom = 4" "totalRounds revealedRoom = 4"
    "players revealedRoom = players demoRoom"
    "\<exists>rv. lastReveal revealedRoom = Some rv \<and> rv_target rv = Some 50"
    by (simp_all add: revealedRoom_def revealRound_room demoRoom_def)
  have nxt: "onRoundNext demoEnv revealedRoom ''a'' = Inr (endGame revealedRoom)"
    by (simp add: onRoundNext_def f)
  let ?r = "fst (endGame revealedRoom)"
  have stp: "step demoEnv [(''ABCDE'', revealedRoom)] ''a'' (RoundNext ''ABCDE'')
               = Inr ([(''ABCDE'', ?r)], broadcastRoom ?r)"
    by (simp add: withRoom_def mapGet_def nxt endGame_def Let_def)
  have ph: "phase ?r = GAMEOVER"
    by (simp add: endGame_def Let_def)
  have outs: "map (\<lambda>x. case x of State to st \<Rightarrow> (to, st_phase st, st_lastReveal st, st_secretTarget st))
               (broadcastRoom ?r)
             = [(''a'', GAMEOVER, None, None), (''b'', GAMEOVER, None, None),
                (''c'', GAMEOVER, None, None)]"
    by (simp add: broadcastRoom_def endGame_def Let_def f safeRoomState_fields demoRoom_def)
  have "\<exists>r'. step demoEnv [(''ABCDE'', revealedRoom)] ''a'' (RoundNext ''ABCDE'')
              = Inr ([(''ABCDE'', r')], broadcastRoom r')
          \<and> phase r' = GAMEOVER
          \<and> map (\<lambda>x. case x of State to st \<Rightarrow> (to, st_phase st, st_lastReveal st, st_secretTarget st))
               (broadcastRoom r')
             = [(''a'', GAMEOVER, None, None), (''b'', GAMEOVER, None, None),
                (''c'', GAMEOVER, None, None)]"
    by (intro exI [of _ ?r] conjI) (fact stp, fact ph, fact outs)
  with f(1,2,6) show ?thesis by (intro conjI)
qed

subsection \<open>Disconnect\<close>

lemma step_Disconnect_rooms:
  assumes "step e rs sid Disconnect = Inr (rs', outs)" and "(c, r') \<in> set rs'"
  shows "\<exists>r. (c, r) \<in> set rs \<and> fst (disconnectRoom r sid) = Some r'"
proof -
  from assms have "(c, r') \<in> set (fst (disconnectAll rs sid))" by auto
  then show ?thesis by (rule disconnectAll_rooms)
qed

text \<open>
  C10.  A disconnect never changes a room's phase and never reveals: every room that is in
  the registry after the disconnect of socket \<open>sid\<close> comes from a room of the registry
  before it, with the departing player removed and with the same phase, reveal snapshot,
  final guess, team score, guesses and locked set.  In particular a room in GUESS stays in
  GUESS even when the departing player was the only guesser who had not locked.
\<close>

theorem disconnect_keeps_phase:
  assumes "step e rs sid Disconnect = Inr (rs', outs)" and "(c, r') \<in> set rs'"
  shows "\<exists>r. (c, r) \<in> set rs
     \<and> phase r' = phase r
     \<and> lastReveal r' = lastReveal r
     \<and> finalGuess r' = finalGuess r
     \<and> score r' = score r
     \<and> locked r' = locked r
     \<and> guesses r' = guesses r
     \<and> players r' = filter (\<lambda>p. pid p \<noteq> sid) (players r)"
proof -
  from step_Disconnect_rooms [OF assms] obtain r where
    r: "(c, r) \<in> set rs" "fst (disconnectRoom r sid) = Some r'" by blast
  from disconnectRoom_frame [OF r(2)] r(1) show ?thesis by blast
qed

lemma disconnect_total: "\<exists>rs' outs. step e rs sid Disconnect = Inr (rs', outs)"
  by (cases "disconnectAll rs sid") simp

text \<open>Cy, the only guesser who has not locked, leaves: the room stays in GUESS with every
  remaining guesser locked, until a later \<open>round:lock\<close> reveals.\<close>

theorem disconnect_keeps_phase_witness:
  "\<exists>r' outs. step demoEnv demoRooms ''c'' Disconnect = Inr ([(''ABCDE'', r')], outs)
      \<and> phase demoRoom = GUESS
      \<and> ''c'' \<notin> set (locked demoRoom)
      \<and> phase r' = GUESS
      \<and> lastReveal r' = None
      \<and> map pid (guessersOf r') = [''b'']
      \<and> locked r' = [''b'']
      \<and> phase (fst (onRoundLock r' ''b'')) = REVEAL"
proof -
  let ?r = "demoRoom\<lparr>players := [\<lparr>pid = ''a'', pname = ''Ann''\<rparr>, \<lparr>pid = ''b'', pname = ''Bob''\<rparr>],
                      playerScores := (playerScores demoRoom)(''c'' := None)\<rparr>"
  have d: "disconnectRoom demoRoom ''c'' = (Some ?r, broadcastRoom ?r)"
    by (simp add: disconnectRoom_def Let_def demoRoom_def)
  have stp: "step demoEnv demoRooms ''c'' Disconnect = Inr ([(''ABCDE'', ?r)], broadcastRoom ?r)"
    by (simp add: demoRooms_def d)
  have mem: "(''ABCDE'', ?r) \<in> set [(''ABCDE'', ?r)]" by simp
  from disconnect_keeps_phase [OF stp mem] obtain r where
    "(''ABCDE'', r) \<in> set demoRooms" and ph: "phase ?r = phase r" "lastReveal ?r = lastReveal r"
    "locked ?r = locked r"
    by blast
  then have "r = demoRoom" by (simp add: demoRooms_def)
  with ph have p: "phase ?r = GUESS" "lastReveal ?r = None" "locked ?r = [''b'']"
    by (simp_all add: demoRoom_def)
  have q: "phase demoRoom = GUESS" "''c'' \<notin> set (locked demoRoom)"
    "map pid (guessersOf ?r) = [''b'']"
    by (simp_all add: demoRoom_def guessersOf_def)
  have "onRoundLock ?r ''b'' = revealRound (?r\<lparr>locked := setAdd (locked ?r) ''b''\<rparr>)"
    by (rule onRoundLock_reveals) (simp_all add: demoRoom_def guessersOf_def setAdd_def)
  then have later: "phase (fst (onRoundLock ?r ''b'')) = REVEAL"
    by (simp add: revealRound_frame)
  show ?thesis
    by (intro exI [of _ ?r] exI [of _ "broadcastRoom ?r"] conjI)
       (fact stp, fact q(1), fact q(2), fact p(1), fact p(2), fact q(3), fact p(3), fact later)
qed

subsection \<open>The locked set\<close>

lemma lockedOk_iff:
  "lockedOk r = (\<forall>x \<in> set (locked r). x \<in> pid ` set (players r) \<and> cluegiverId r \<noteq> Some x)"
  by (cases "cluegiverId r") (auto simp: lockedOk_def)

lemma freshRoom_lockedOk: "lockedOk (freshRoom e sid name)"
  by (simp add: lockedOk_def freshRoom_def)

lemma set_setAdd: "set (setAdd xs x) = insert x (set xs)"
  by (auto simp: setAdd_def)

lemma handled_locked_frame:
  assumes "handled e r sid ev (r', outs)"
  shows "locked r' = []
       \<or> (locked r' = locked r \<and> cluegiverId r' = cluegiverId r
            \<and> set (players r) \<subseteq> set (players r'))
       \<or> ((\<exists>c. ev = RoundLock c) \<and> cluegiverId r \<noteq> Some sid
            \<and> locked r' = setAdd (locked r) sid \<and> cluegiverId r' = cluegiverId r
            \<and> players r' = players r)"
proof (cases ev)
  case (RoomJoin c name)
  with assms show ?thesis by (auto simp: handled_def onRoomJoin_def Let_def)
next
  case (PromptsSet c t)
  with assms show ?thesis by (auto simp: handled_def onPromptsSet_def Let_def split: if_splits)
next
  case (ConfigSetRounds c n)
  with assms show ?thesis by (auto simp: handled_def onConfigSetRounds_def Let_def split: if_splits)
next
  case (GameStart c n)
  with assms show ?thesis
    by (auto simp: handled_def onGameStart_def Let_def dest: startRound_room
          split: if_splits sum.splits)
next
  case (RoundClue c t)
  with assms show ?thesis by (auto simp: handled_def onRoundClue_def Let_def split: if_splits)
next
  case (RoundGuess c v)
  with assms show ?thesis by (auto simp: handled_def onRoundGuess_def Let_def split: if_splits)
next
  case (RoundLock c)
  with assms revealRound_frame [of "r\<lparr>locked := setAdd (locked r) sid\<rparr>"] show ?thesis
    by (auto simp: handled_def onRoundLock_def Let_def split: if_splits)
next
  case (RoundRevealNow c)
  with assms revealRound_frame [of r] show ?thesis
    by (auto simp: handled_def onRoundRevealNow_def split: if_splits)
next
  case (RoundNext c)
  with assms endGame_room [of r] show ?thesis
    by (auto simp: handled_def onRoundNext_def dest: startRound_room split: if_splits)
next
  case (GameReplay c)
  with assms show ?thesis
    by (auto simp: handled_def onGameReplay_def Let_def dest: startRound_room
          split: if_splits sum.splits)
qed (use assms in \<open>simp_all add: handled_def\<close>)

lemma handled_lockedOk:
  assumes "handled e r sid ev (r', outs)" and "lockedOk r"
    and "\<And>c. ev = RoundLock c \<Longrightarrow> sid \<in> pid ` set (players r)"
  shows "lockedOk r'"
proof -
  from handled_locked_frame [OF assms(1)] consider
    (cleared) "locked r' = []"
  | (kept) "locked r' = locked r" "cluegiverId r' = cluegiverId r"
      "set (players r) \<subseteq> set (players r')"
  | (added) c where "ev = RoundLock c" "cluegiverId r \<noteq> Some sid"
      "locked r' = setAdd (locked r) sid" "cluegiverId r' = cluegiverId r" "players r' = players r"
    by blast
  then show ?thesis
  proof cases
    case cleared
    then show ?thesis by (simp add: lockedOk_iff)
  next
    case kept
    with assms(2) show ?thesis by (auto simp: lockedOk_iff)
  next
    case added
    from added(1) have "sid \<in> pid ` set (players r)" by (rule assms(3))
    with added assms(2) show ?thesis by (auto simp: lockedOk_iff set_setAdd)
  qed
qed

text \<open>
  C7 (as the code has it).  Every operation other than disconnect (create, join, prompts,
  rounds, start, clue, guess, lock, reveal, next round, replay) keeps the locked set of
  every room within the ids of the room's players other than its clue-giver, provided a
  \<open>round:lock\<close> is sent by a player of the room it names (the handler does not check
  that).
\<close>

theorem locked_within_guessers:
  assumes "roomsAll lockedOk rs" and "step e rs sid ev = Inr (rs', outs)"
    and "ev \<noteq> Disconnect"
    and "\<And>c r. ev = RoundLock c \<Longrightarrow> mapGet rs c = Some r \<Longrightarrow> sid \<in> pid ` set (players r)"
  shows "roomsAll lockedOk rs'"
proof -
  from step_result [OF assms(2)] assms(3) consider
    (create) name where "rs' = mapSet rs (new_code e) (freshRoom e sid name)"
  | (same) "rs' = rs"
  | (room) c r r' where "codeOf ev = Some c" "mapGet rs c = Some r"
      "handled e r sid ev (r', outs)" "rs' = mapSet rs c r'"
    by blast
  then show ?thesis
  proof cases
    case create
    with assms(1) show ?thesis by (simp add: roomsAll_mapSet freshRoom_lockedOk)
  next
    case same
    with assms(1) show ?thesis by simp
  next
    case room
    from room(2) assms(1) have ok: "lockedOk r"
      by (auto simp: roomsAll_iff dest: mapGet_in_set)
    have "\<And>c'. ev = RoundLock c' \<Longrightarrow> sid \<in> pid ` set (players r)"
    proof -
      fix c' assume lock: "ev = RoundLock c'"
      with room(1) have "c' = c" by simp
      with lock room(2) show "sid \<in> pid ` set (players r)" by (simp add: assms(4))
    qed
    with room(3) ok have "lockedOk r'" by (rule handled_lockedOk)
    with assms(1) room(4) show ?thesis by (simp add: roomsAll_mapSet)
  qed
qed

lemma demoRooms_lockedOk: "roomsAll lockedOk demoRooms"
  by (simp add: roomsAll_def demoRooms_def demoRoom_def lockedOk_def)

theorem locked_within_guessers_witness:
  "roomsAll lockedOk demoRooms
   \<and> RoundLock ''ABCDE'' \<noteq> Disconnect
   \<and> ''c'' \<in> pid ` set (players demoRoom)
   \<and> (\<exists>rs' outs. step demoEnv demoRooms ''c'' (RoundLock ''ABCDE'') = Inr (rs', outs)
          \<and> roomsAll lockedOk rs')"
proof -
  have found: "mapGet demoRooms ''ABCDE'' = Some demoRoom"
    by (simp add: demoRooms_def mapGet_def)
  have member: "''c'' \<in> pid ` set (players demoRoom)"
    by (simp add: demoRoom_def)
  note stp = step_RoundLock [OF found, of demoEnv "''c''"]
  have "roomsAll lockedOk (mapSet demoRooms ''ABCDE'' (fst (onRoundLock demoRoom ''c'')))"
  proof (rule locked_within_guessers [OF demoRooms_lockedOk stp])
    show "RoundLock ''ABCDE'' \<noteq> Disconnect" by simp
  next
    fix c r assume "RoundLock ''ABCDE'' = RoundLock c" "mapGet demoRooms c = Some r"
    with found have "r = demoRoom" by simp
    with member show "''c'' \<in> pid ` set (players r)" by simp
  qed
  with stp have "\<exists>rs' outs. step demoEnv demoRooms ''c'' (RoundLock ''ABCDE'') = Inr (rs', outs)
          \<and> roomsAll lockedOk rs'"
    by blast
  with demoRooms_lockedOk member show ?thesis by simp
qed

text \<open>A disconnect does not prune the locked set: when Bob, who has locked, leaves, his id
  stays in it; when Ann, the clue-giver, leaves, Bob becomes clue-giver with his id in it.\<close>

theorem disconnect_leaves_locked_id:
  "roomsAll lockedOk demoRooms
   \<and> (\<exists>r' outs. step demoEnv demoRooms ''b'' Disconnect = Inr ([(''ABCDE'', r')], outs)
          \<and> map pid (players r') = [''a'', ''c'']
          \<and> locked r' = [''b'']
          \<and> \<not> lockedOk r')
   \<and> (\<exists>r' outs. step demoEnv demoRooms ''a'' Disconnect = Inr ([(''ABCDE'', r')], outs)
          \<and> cluegiverId r' = Some ''b''
          \<and> locked r' = [''b'']
          \<and> \<not> lockedOk r')"
proof -
  let ?rb = "demoRoom\<lparr>players := [\<lparr>pid = ''a'', pname = ''Ann''\<rparr>, \<lparr>pid = ''c'', pname = ''Cy''\<rparr>],
                       playerScores := (playerScores demoRoom)(''b'' := None)\<rparr>"
  let ?ra = "demoRoom\<lparr>players := [\<lparr>pid = ''b'', pname = ''Bob''\<rparr>, \<lparr>pid = ''c'', pname = ''Cy''\<rparr>],
                       playerScores := (playerScores demoRoom)(''a'' := None),
                       hostId := Some ''b'', cluegiverId := Some ''b''\<rparr>"
  have db: "disconnectRoom demoRoom ''b'' = (Some ?rb, broadcastRoom ?rb)"
    by (simp add: disconnectRoom_def Let_def demoRoom_def)
  have da: "disconnectRoom demoRoom ''a'' = (Some ?ra, broadcastRoom ?ra)"
    by (simp add: disconnectRoom_def Let_def demoRoom_def firstIdOrNull_def)
  have sb: "step demoEnv demoRooms ''b'' Disconnect = Inr ([(''ABCDE'', ?rb)], broadcastRoom ?rb)"
    by (simp add: demoRooms_def db)
  have sa: "step demoEnv demoRooms ''a'' Disconnect = Inr ([(''ABCDE'', ?ra)], broadcastRoom ?ra)"
    by (simp add: demoRooms_def da)
  have fb: "map pid (players ?rb) = [''a'', ''c'']" "locked ?rb = [''b'']" "\<not> lockedOk ?rb"
    by (simp_all add: demoRoom_def lockedOk_def)
  have fa: "cluegiverId ?ra = Some ''b''" "locked ?ra = [''b'']" "\<not> lockedOk ?ra"
    by (simp_all add: demoRoom_def lockedOk_def)
  have b: "\<exists>r' outs. step demoEnv demoRooms ''b'' Disconnect = Inr ([(''ABCDE'', r')], outs)
          \<and> map pid (players r') = [''a'', ''c'']
          \<and> locked r' = [''b'']
          \<and> \<not> lockedOk r'"
    by (intro exI [of _ ?rb] exI [of _ "broadcastRoom ?rb"] conjI)
       (fact sb, fact fb(1), fact fb(2), fact fb(3))
  have a: "\<exists>r' outs. step demoEnv demoRooms ''a'' Disconnect = Inr ([(''ABCDE'', r')], outs)
          \<and> cluegiverId r' = Some ''b''
          \<and> locked r' = [''b'']
          \<and> \<not> lockedOk r'"
    by (intro exI [of _ ?ra] exI [of _ "broadcastRoom ?ra"] conjI)
       (fact sa, fact fa(1), fact fa(2), fact fa(3))
  from demoRooms_lockedOk b a show ?thesis by (intro conjI)
qed

subsection \<open>Guards and starting a game\<close>

lemma rotateCluegiver_total:
  "players r \<noteq> [] \<Longrightarrow> \<exists>i. rotateCluegiver r = Inr (r\<lparr>cluegiverId := Some i\<rparr>)"
  by (cases "findIndex (\<lambda>p. Some (pid p) = cluegiverId r) (players r)")
     (auto simp: rotateCluegiver_def elemAt_def Let_def)

lemma startRound_total:
  assumes "players r \<noteq> []"
  shows "\<exists>r'. startRound e r = Inr (r', broadcastRoom r')
      \<and> phase r' = CLUE \<and> players r' = players r \<and> playerScores r' = playerScores r
      \<and> score r' = score r \<and> currentRound r' = currentRound r \<and> totalRounds r' = totalRounds r
      \<and> guesses r' = [] \<and> locked r' = [] \<and> lastReveal r' = None
      \<and> target r' = Some \<lfloor>dmul (rnd_target e) 101\<rfloor>"
proof -
  from rotateCluegiver_total [of "r\<lparr>phase := CLUE\<rparr>"] assms obtain i where
    "rotateCluegiver (r\<lparr>phase := CLUE\<rparr>) = Inr (r\<lparr>phase := CLUE, cluegiverId := Some i\<rparr>)"
    by auto
  then show ?thesis
    by (simp add: startRound_def Let_def)
qed

lemma zeroScores_fold:
  "i \<in> pid ` set ps \<or> m i = Some 0 \<Longrightarrow> foldl (\<lambda>m p. m(pid p \<mapsto> 0)) m ps i = Some 0"
  by (induction ps arbitrary: m) auto

lemma zeroScores_in: "p \<in> set ps \<Longrightarrow> zeroScores ps m (pid p) = Some 0"
  by (simp add: zeroScores_def zeroScores_fold)

text \<open>
  X1.  An event whose guard, as its handler checks it, is violated (a host-only action from
  another socket, a clue from another socket than the clue-giver's or outside CLUE, a guess
  or lock from the clue-giver or outside GUESS, a forced reveal outside GUESS, a next round
  outside REVEAL, prompts or rounds set outside LOBBY) leaves the registry as it is and emits
  nothing.
\<close>

theorem guard_violation_ignored:
  assumes "codeOf ev = Some c" and "mapGet rs c = Some r" and "guardViolated r sid ev"
  shows "step e rs sid ev = Inr (rs, [])"
proof -
  have same: "mapSet rs c r = rs"
    using assms(2) by (rule mapSet_same)
  show ?thesis
  proof (cases ev)
    case (PromptsSet c' t)
    with assms same show ?thesis
      by (auto simp: guardViolated_def withRoom_def onPromptsSet_def)
  next
    case (ConfigSetRounds c' n)
    with assms same show ?thesis
      by (auto simp: guardViolated_def withRoom_def onConfigSetRounds_def)
  next
    case (GameStart c' n)
    with assms same show ?thesis
      by (auto simp: guardViolated_def withRoom_def onGameStart_def)
  next
    case (RoundClue c' t)
    with assms same show ?thesis
      by (auto simp: guardViolated_def withRoom_def onRoundClue_def)
  next
    case (RoundGuess c' v)
    with assms same show ?thesis
      by (auto simp: guardViolated_def withRoom_def onRoundGuess_def)
  next
    case (RoundLock c')
    with assms same show ?thesis
      by (auto simp: guardViolated_def withRoom_def onRoundLock_def)
  next
    case (RoundRevealNow c')
    with assms same show ?thesis
      by (auto simp: guardViolated_def withRoom_def onRoundRevealNow_def)
  next
    case (RoundNext c')
    with assms same show ?thesis
      by (auto simp: guardViolated_def withRoom_def onRoundNext_def)
  next
    case (GameReplay c')
    with assms same show ?thesis
      by (auto simp: guardViolated_def withRoom_def onGameReplay_def)
  qed (use assms in \<open>simp_all add: guardViolated_def\<close>)
qed

text \<open>
  C2.  In the specification every event whose guard is violated (wrong actor or wrong
  phase) leaves the room unchanged and emits nothing, \<open>game:start\<close> outside LOBBY and
  \<open>game:replay\<close> outside GAMEOVER among them.  The handlers of these two events check
  the host only, unlike the other handlers, which check the phase too: sent by the host
  during GUESS, each of the two resets the team score and every player's score to 0, sets the
  round to 1, starts a new round in phase CLUE and broadcasts the state to the three players.
\<close>

theorem game_start_outside_lobby:
  "phase demoRoom = GUESS \<and> hostId demoRoom = Some ''a''
   \<and> score demoRoom = 6 \<and> scoreOf (playerScores demoRoom) ''c'' = 4
   \<and> (\<exists>r'. step demoEnv demoRooms ''a'' (GameStart ''ABCDE'' None)
               = Inr ([(''ABCDE'', r')], broadcastRoom r')
          \<and> phase r' = CLUE \<and> score r' = 0 \<and> scoreOf (playerScores r') ''c'' = 0
          \<and> currentRound r' = 1 \<and> guesses r' = [] \<and> length (broadcastRoom r') = 3)
   \<and> (\<exists>r'. step demoEnv demoRooms ''a'' (GameReplay ''ABCDE'')
               = Inr ([(''ABCDE'', r')], broadcastRoom r')
          \<and> phase r' = CLUE \<and> score r' = 0 \<and> scoreOf (playerScores r') ''c'' = 0
          \<and> currentRound r' = 1 \<and> guesses r' = [] \<and> length (broadcastRoom r') = 3)"
proof -
  let ?r2 = "demoRoom\<lparr>score := 0, playerScores := zeroScores (players demoRoom) (playerScores demoRoom),
                        currentRound := 1\<rparr>"
  let ?r3 = "?r2\<lparr>cluegiverId := Some ''c''\<rparr>"
  have before: "phase demoRoom = GUESS" "hostId demoRoom = Some ''a''"
    "score demoRoom = 6" "scoreOf (playerScores demoRoom) ''c'' = 4"
    by (simp_all add: demoRoom_def scoreOf_def)
  have lastp: "lastPlayerId (players ?r2) = Inr ''c''"
    by (simp add: lastPlayerId_def demoRoom_def)
  have start: "onGameStart demoEnv demoRoom ''a'' None = startRound demoEnv ?r3"
    using lastp by (simp add: onGameStart_def Let_def demoRoom_def)
  have replay: "onGameReplay demoEnv demoRoom ''a'' = startRound demoEnv ?r3"
    using lastp by (simp add: onGameReplay_def Let_def demoRoom_def)
  have zero: "playerScores ?r3 ''c'' = Some 0"
    using zeroScores_in [of "\<lparr>pid = ''c'', pname = ''Cy''\<rparr>" "players demoRoom" "playerScores demoRoom"]
    by (simp add: demoRoom_def)
  have "players ?r3 \<noteq> []"
    by (simp add: demoRoom_def)
  from startRound_total [OF this, of demoEnv] obtain r' where
    run: "startRound demoEnv ?r3 = Inr (r', broadcastRoom r')"
    and f: "phase r' = CLUE" "players r' = players ?r3" "playerScores r' = playerScores ?r3"
      "score r' = score ?r3" "currentRound r' = currentRound ?r3" "guesses r' = []"
    by blast
  have g: "score r' = 0" "scoreOf (playerScores r') ''c'' = 0" "currentRound r' = 1"
    "length (broadcastRoom r') = 3"
    using f zero by (simp_all add: scoreOf_def broadcastRoom_def demoRoom_def)
  have found: "mapGet demoRooms ''ABCDE'' = Some demoRoom"
    by (simp add: demoRooms_def mapGet_def)
  have one: "mapSet demoRooms ''ABCDE'' r' = [(''ABCDE'', r')]"
    by (simp add: demoRooms_def)
  have s1: "step demoEnv demoRooms ''a'' (GameStart ''ABCDE'' None)
              = Inr ([(''ABCDE'', r')], broadcastRoom r')"
    by (simp add: withRoom_def found start run one)
  have s2: "step demoEnv demoRooms ''a'' (GameReplay ''ABCDE'')
              = Inr ([(''ABCDE'', r')], broadcastRoom r')"
    by (simp add: withRoom_def found replay run one)
  have e1: "\<exists>r'. step demoEnv demoRooms ''a'' (GameStart ''ABCDE'' None)
               = Inr ([(''ABCDE'', r')], broadcastRoom r')
          \<and> phase r' = CLUE \<and> score r' = 0 \<and> scoreOf (playerScores r') ''c'' = 0
          \<and> currentRound r' = 1 \<and> guesses r' = [] \<and> length (broadcastRoom r') = 3"
    by (intro exI [of _ r'] conjI)
       (fact s1, fact f(1), fact g(1), fact g(2), fact g(3), fact f(6), fact g(4))
  have e2: "\<exists>r'. step demoEnv demoRooms ''a'' (GameReplay ''ABCDE'')
               = Inr ([(''ABCDE'', r')], broadcastRoom r')
          \<and> phase r' = CLUE \<and> score r' = 0 \<and> scoreOf (playerScores r') ''c'' = 0
          \<and> currentRound r' = 1 \<and> guesses r' = [] \<and> length (broadcastRoom r') = 3"
    by (intro exI [of _ r'] conjI)
       (fact s2, fact f(1), fact g(1), fact g(2), fact g(3), fact f(6), fact g(4))
  from before e1 e2 show ?thesis by (intro conjI)
qed

theorem guard_violation_ignored_witness:
  "codeOf (RoundGuess ''ABCDE'' (Fin 10)) = Some ''ABCDE''
   \<and> mapGet demoRooms ''ABCDE'' = Some demoRoom
   \<and> guardViolated demoRoom ''a'' (RoundGuess ''ABCDE'' (Fin 10))
   \<and> step demoEnv demoRooms ''a'' (RoundGuess ''ABCDE'' (Fin 10)) = Inr (demoRooms, [])"
proof -
  have h: "codeOf (RoundGuess ''ABCDE'' (Fin 10)) = Some ''ABCDE''"
    "mapGet demoRooms ''ABCDE'' = Some demoRoom"
    "guardViolated demoRoom ''a'' (RoundGuess ''ABCDE'' (Fin 10))"
    by (simp_all add: demoRooms_def mapGet_def guardViolated_def demoRoom_def)
  from guard_violation_ignored [OF h, of demoEnv] h show ?thesis by (intro conjI)
qed

text \<open>The two rejections: joining an unknown room, and starting with fewer than two
  players; both leave the registry as it is.\<close>

lemma rejections:
  "mapGet rs c = None \<Longrightarrow> step e rs sid (RoomJoin c name) = Inr (rs, [RoomError sid ''Room not found.''])"
  "mapGet rs c = Some r \<Longrightarrow> hostId r = Some sid \<Longrightarrow> length (players r) < 2 \<Longrightarrow>
     step e rs sid (GameStart c n) = Inr (rs, [RoomError sid ''Need at least 2 players.''])"
  by (simp_all add: withRoom_def onGameStart_def mapSet_same)

subsection \<open>Players, tiers, rotation and a worked round\<close>

lemma handled_players_frame:
  assumes "handled e r sid ev (r', outs)"
  shows "players r' = players r
       \<or> (sid \<notin> pid ` set (players r) \<and> (\<exists>n. players r' = players r @ [\<lparr>pid = sid, pname = n\<rparr>]))"
proof (cases ev)
  case (RoomJoin c name)
  show ?thesis
  proof (cases "find (\<lambda>p. pid p = sid) (players r)")
    case None
    then have "sid \<notin> pid ` set (players r)"
      by (auto simp: find_None_iff)
    with None RoomJoin assms show ?thesis
      by (auto simp: handled_def onRoomJoin_def Let_def)
  next
    case (Some p)
    with RoomJoin assms show ?thesis
      by (auto simp: handled_def onRoomJoin_def Let_def)
  qed
next
  case (PromptsSet c t)
  with assms show ?thesis by (auto simp: handled_def onPromptsSet_def Let_def split: if_splits)
next
  case (ConfigSetRounds c n)
  with assms show ?thesis by (auto simp: handled_def onConfigSetRounds_def Let_def split: if_splits)
next
  case (GameStart c n)
  with assms show ?thesis
    by (auto simp: handled_def onGameStart_def Let_def dest: startRound_room
          split: if_splits sum.splits option.splits)
next
  case (RoundClue c t)
  with assms show ?thesis by (auto simp: handled_def onRoundClue_def Let_def split: if_splits)
next
  case (RoundGuess c v)
  with assms show ?thesis by (auto simp: handled_def onRoundGuess_def Let_def split: if_splits)
next
  case (RoundLock c)
  with assms revealRound_frame [of "r\<lparr>locked := setAdd (locked r) sid\<rparr>"] show ?thesis
    by (auto simp: handled_def onRoundLock_def Let_def split: if_splits)
next
  case (RoundRevealNow c)
  with assms revealRound_frame [of r] show ?thesis
    by (auto simp: handled_def onRoundRevealNow_def split: if_splits)
next
  case (RoundNext c)
  with assms endGame_room [of r] show ?thesis
    by (auto simp: handled_def onRoundNext_def dest: startRound_room split: if_splits)
next
  case (GameReplay c)
  with assms show ?thesis
    by (auto simp: handled_def onGameReplay_def Let_def dest: startRound_room
          split: if_splits sum.splits)
qed (use assms in \<open>simp_all add: handled_def\<close>)

text \<open>
  X2.  Every step keeps the player ids of every room distinct: \<open>room:join\<close> adds a
  socket only when no player has its id, and nothing else adds a player.
\<close>

theorem player_ids_stay_distinct:
  assumes "roomsAll playersDistinct rs" and "step e rs sid ev = Inr (rs', outs)"
  shows "roomsAll playersDistinct rs'"
proof -
  from step_result [OF assms(2)] consider
    (create) name where "rs' = mapSet rs (new_code e) (freshRoom e sid name)"
  | (disconnect) "disconnectAll rs sid = (rs', outs)"
  | (same) "rs' = rs"
  | (room) c r r' where "mapGet rs c = Some r" "handled e r sid ev (r', outs)" "rs' = mapSet rs c r'"
    by blast
  then show ?thesis
  proof cases
    case create
    have "playersDistinct (freshRoom e sid name)"
      by (simp add: playersDistinct_def freshRoom_def)
    with assms(1) create show ?thesis by (simp add: roomsAll_mapSet)
  next
    case disconnect
    show ?thesis
      unfolding roomsAll_iff
    proof (intro allI impI)
      fix c r' assume "(c, r') \<in> set rs'"
      then have "(c, r') \<in> set (fst (disconnectAll rs sid))" by (simp add: disconnect)
      from disconnectAll_rooms [OF this] obtain r where
        r: "(c, r) \<in> set rs" "fst (disconnectRoom r sid) = Some r'" by blast
      from r(1) assms(1) have "playersDistinct r" by (auto simp: roomsAll_iff)
      with disconnectRoom_frame [OF r(2)] show "playersDistinct r'"
        by (simp add: playersDistinct_def distinct_map_filter)
    qed
  next
    case same
    with assms(1) show ?thesis by simp
  next
    case room
    from room(1) assms(1) have "playersDistinct r"
      by (auto simp: roomsAll_iff dest: mapGet_in_set)
    with handled_players_frame [OF room(2)] have "playersDistinct r'"
      by (auto simp: playersDistinct_def)
    with assms(1) room(3) show ?thesis by (simp add: roomsAll_mapSet)
  qed
qed

theorem player_ids_stay_distinct_witness:
  "roomsAll playersDistinct demoRooms
   \<and> (\<exists>rs' outs. step demoEnv demoRooms ''d'' (RoomJoin ''ABCDE'' ''Dee'') = Inr (rs', outs)
          \<and> roomsAll playersDistinct rs')"
proof -
  have ok: "roomsAll playersDistinct demoRooms"
    by (simp add: roomsAll_def demoRooms_def demoRoom_def playersDistinct_def)
  have "mapGet demoRooms ''ABCDE'' = Some demoRoom"
    by (simp add: demoRooms_def mapGet_def)
  then have stp: "step demoEnv demoRooms ''d'' (RoomJoin ''ABCDE'' ''Dee'')
      = Inr (mapSet demoRooms ''ABCDE'' (fst (onRoomJoin demoRoom ''d'' ''ABCDE'' ''Dee'')),
             snd (onRoomJoin demoRoom ''d'' ''ABCDE'' ''Dee''))"
    by (simp add: case_prod_unfold Let_def)
  from player_ids_stay_distinct [OF ok stp] stp
  have "\<exists>rs' outs. step demoEnv demoRooms ''d'' (RoomJoin ''ABCDE'' ''Dee'') = Inr (rs', outs)
          \<and> roomsAll playersDistinct rs'"
    by blast
  with ok show ?thesis ..
qed

text \<open>
  X3.  The tier points are a non-increasing step function of the distance, between 0 and 4,
  with breakpoints at 10, 17, 24 and 34.
\<close>

theorem scoreFromDistance_steps:
  "(d \<le> d' \<longrightarrow> scoreFromDistance d' \<le> scoreFromDistance d)
   \<and> 0 \<le> scoreFromDistance d \<and> scoreFromDistance d \<le> 4
   \<and> scoreFromDistance 10 = 4 \<and> scoreFromDistance 11 = 3
   \<and> scoreFromDistance 17 = 3 \<and> scoreFromDistance 18 = 2
   \<and> scoreFromDistance 24 = 2 \<and> scoreFromDistance 25 = 1
   \<and> scoreFromDistance 34 = 1 \<and> scoreFromDistance 35 = 0"
  by (simp add: scoreFromDistance_def)

theorem scoreFromDistance_steps_witness:
  "(5::rat) \<le> 20 \<and> scoreFromDistance 20 \<le> scoreFromDistance 5"
  using scoreFromDistance_steps [of 5 20] by simp

lemma findIndex_nth:
  "distinct (map f xs) \<Longrightarrow> i < length xs \<Longrightarrow> findIndex (\<lambda>x. f x = f (xs ! i)) xs = Some i"
proof (induction xs arbitrary: i)
  case Nil
  then show ?case by simp
next
  case (Cons x xs)
  show ?case
  proof (cases i)
    case 0
    then show ?thesis by simp
  next
    case (Suc j)
    with Cons.prems have "f x \<noteq> f (xs ! j)" and "j < length xs" and "distinct (map f xs)"
      by auto
    with Cons.IH [of j] Suc show ?thesis by simp
  qed
qed

lemma findIndex_absent: "\<forall>x \<in> set xs. \<not> P x \<Longrightarrow> findIndex P xs = None"
  by (induction xs) auto

text \<open>
  X4.  Rotation: when the clue-giver is the player at index \<open>i\<close> of a list of players with
  distinct ids, the next clue-giver is the player at index \<open>i + 1\<close>, wrapping to 0 after
  the last.
\<close>

theorem rotation_order:
  assumes "distinct (map pid (players r))" and "i < length (players r)"
    and "cluegiverId r = Some (pid (players r ! i))"
  shows "rotateCluegiver r
           = Inr (r\<lparr>cluegiverId := Some (pid (players r ! ((i + 1) mod length (players r))))\<rparr>)"
proof -
  have "findIndex (\<lambda>p. Some (pid p) = cluegiverId r) (players r) = Some i"
    using findIndex_nth [OF assms(1,2)] by (simp add: assms(3))
  moreover have "(i + 1) mod length (players r) < length (players r)"
    using assms(2) by (intro mod_less_divisor) auto
  ultimately show ?thesis
    by (simp add: rotateCluegiver_def elemAt_def Let_def)
qed

theorem rotation_order_witness:
  "rotateCluegiver demoRoom = Inr (demoRoom\<lparr>cluegiverId := Some ''b''\<rparr>)
   \<and> rotateCluegiver (demoRoom\<lparr>cluegiverId := Some ''c''\<rparr>)
       = Inr (demoRoom\<lparr>cluegiverId := Some ''a''\<rparr>)"
proof -
  have "rotateCluegiver demoRoom = Inr (demoRoom\<lparr>cluegiverId := Some ''b''\<rparr>)"
    using rotation_order [of demoRoom 0] by (simp add: demoRoom_def)
  moreover have "rotateCluegiver (demoRoom\<lparr>cluegiverId := Some ''c''\<rparr>)
       = Inr (demoRoom\<lparr>cluegiverId := Some ''a''\<rparr>)"
    using rotation_order [of "demoRoom\<lparr>cluegiverId := Some ''c''\<rparr>" 2] by (simp add: demoRoom_def)
  ultimately show ?thesis ..
qed

text \<open>
  X5.  A \<open>game:start\<close> from the host of a room with fewer than two players is answered
  with \<open>room:error\<close> to the host and changes nothing.
\<close>

theorem start_needs_two_players:
  assumes "mapGet rs c = Some r" and "hostId r = Some sid" and "length (players r) < 2"
  shows "step e rs sid (GameStart c n) = Inr (rs, [RoomError sid ''Need at least 2 players.''])"
  using assms by (simp add: withRoom_def onGameStart_def mapSet_same)

theorem start_needs_two_players_witness:
  "mapGet soloRooms ''FGHIJ'' = Some (freshRoom demoEnv ''a'' ''Ann'')
   \<and> phase (freshRoom demoEnv ''a'' ''Ann'') = LOBBY
   \<and> step demoEnv soloRooms ''a'' (GameStart ''FGHIJ'' None)
       = Inr (soloRooms, [RoomError ''a'' ''Need at least 2 players.''])"
proof -
  have h: "mapGet soloRooms ''FGHIJ'' = Some (freshRoom demoEnv ''a'' ''Ann'')"
    "hostId (freshRoom demoEnv ''a'' ''Ann'') = Some ''a''"
    "length (players (freshRoom demoEnv ''a'' ''Ann'')) < 2"
    "phase (freshRoom demoEnv ''a'' ''Ann'') = LOBBY"
    by (simp_all add: soloRooms_def mapGet_def freshRoom_def)
  from start_needs_two_players [OF h(1,2,3), of demoEnv None] h(1,4) show ?thesis
    by (intro conjI)
qed

text \<open>
  X6.  The round with target 50 in which Bob guesses 45 and Cy 60 and both lock: the
  distances are 5 and 10, both guessers get 4 points, the final guess is 53 with distance 3
  and tier 4, the clue-giver gets 4 points and the team score grows by 8.
\<close>

theorem scenario_two_guessers:
  "\<exists>rv. lastReveal (fst (onRoundLock demoRoom ''c'')) = Some rv
     \<and> rv_target rv = Some 50
     \<and> rv_perPlayer rv ''b'' = Some \<lparr>pp_guess = Some 45, pp_dist = Some 5, pp_pts = 4\<rparr>
     \<and> rv_perPlayer rv ''c'' = Some \<lparr>pp_guess = Some 60, pp_dist = Some 10, pp_pts = 4\<rparr>
     \<and> rv_perPlayer rv ''a'' = None
     \<and> rv_finalGuess rv = 53 \<and> rv_dist rv = 3 \<and> rv_delta rv = 4
     \<and> rv_cluePts rv = 4
     \<and> rv_total rv = score demoRoom + 8"
proof -
  let ?r = "demoRoom\<lparr>locked := setAdd (locked demoRoom) ''c''\<rparr>"
  have run: "onRoundLock demoRoom ''c'' = revealRound ?r"
    by (rule onRoundLock_reveals) (simp_all add: demoRoom_def guessersOf_def setAdd_def)
  have lg: "lockedGuesses ?r = [45, 60]"
    by (simp add: lockedGuesses_def guessersOf_def demoRoom_def setAdd_def mapGet_def
          List.map_filter_simps)
  have dm: "doubleMean [45, 60] = 105 / 2"
    by (simp add: doubleMean_def fl_numeral fl_numeral_half)
  have fg: "computeFinalGuess ?r = 53"
    by (simp add: computeFinalGuess_eq lg dm round_def)
  have g: "guessersOf ?r = [\<lparr>pid = ''b'', pname = ''Bob''\<rparr>, \<lparr>pid = ''c'', pname = ''Cy''\<rparr>]"
    by (simp add: guessersOf_def demoRoom_def)
  have t: "targetNum ?r = 50" "target ?r = Some 50" "guesses ?r = [(''b'', 45), (''c'', 60)]"
    by (simp_all add: targetNum_def demoRoom_def)
  have loop: "loopOf ?r =
     ([''b'' \<mapsto> \<lparr>pp_guess = Some 45, pp_dist = Some 5, pp_pts = 4\<rparr>,
       ''c'' \<mapsto> \<lparr>pp_guess = Some 60, pp_dist = Some 10, pp_pts = 4\<rparr>],
      (playerScores ?r)(''b'' \<mapsto> scoreOf (playerScores ?r) ''b'' + 4,
                        ''c'' \<mapsto> scoreOf ((playerScores ?r)(''b'' \<mapsto> scoreOf (playerScores ?r) ''b'' + 4)) ''c'' + 4),
      8, 2)"
    unfolding loopOf_def g t
    by (simp add: mapGet_def scoreFromDistance_def dsub_def fl_numeral fl_neg_numeral)
  have cp: "cluePtsOf ?r = 4"
    by (simp add: cluePtsOf_def loop Math_round_def ddiv_def fl_numeral floor_numeral_div)
  show ?thesis
    unfolding run by (simp add: revealRound_room fg loop cp t scoreFromDistance_def)
qed

end
